theory Spec2Isabelle
  imports Main "HOL-Library.List_Lexorder" "HOL-Library.Char_ord"
begin

section \<open>Values and constants of \<open>entry.js\<close>\<close>

text \<open>
  The kinds of namespace proxy an entry hands out (the four deferred properties
  \<open>completeNamespace\<close>, \<open>completeMutableNamespace\<close>, \<open>partialNamespace\<close> and
  \<open>partialMutableNamespace\<close> of the \<open>Entry\<close> constructor).
\<close>

datatype view = Complete | CompleteMutable | Partial | PartialMutable

text \<open>
  JavaScript values as far as the engine tells them apart. Objects and functions are
  references (\<open>Object.is\<close> on them is identity, which is equality of references);
  a namespace proxy is identified by the entry that owns it and its kind, since each is
  created once and cached by \<open>setDeferred\<close>; \<open>ExportsProxy i\<close> is the proxy
  \<open>proxyExports\<close> makes for the entry \<open>i\<close>. The three sentinels \<open>ERROR_GETTER\<close>,
  \<open>ERROR_STAR\<close> and \<open>INITIAL_VALUE\<close> come from \<open>constant/entry.js\<close>; they are
  values distinct from each other and from every value of user code.
\<close>

datatype val =
    Undefined
  | Null
  | Bool bool
  | Num int
  | Str string
  | Obj nat
  | Func nat
  | NsProxy nat view
  | ExportsProxy nat
  | ERROR_GETTER
  | ERROR_STAR
  | INITIAL_VALUE

datatype entry_type = TYPE_CJS | TYPE_ESM | TYPE_PSEUDO | TYPE_WASM

datatype load_state = LOAD_INCOMPLETE | LOAD_INDETERMINATE | LOAD_COMPLETED

datatype update_type = UPDATE_TYPE_DEFAULT | UPDATE_TYPE_INIT | UPDATE_TYPE_LIVE

datatype setter_type =
    SETTER_TYPE_DYNAMIC_IMPORT
  | SETTER_TYPE_EXPORT_FROM
  | SETTER_TYPE_NAMESPACE
  | SETTER_TYPE_STATIC_IMPORT

text \<open>
  What the engine throws: the errors of \<open>errors.js\<close> it constructs, with the module
  (the id of its entry) and the name, and the \<open>TypeError\<close> of the language itself
  (a failed assignment in strict code, iterating \<open>null\<close>, reading a property of
  \<open>null\<close> or \<open>undefined\<close>).
\<close>

datatype error =
    ERR_EXPORT_STAR_CONFLICT nat string
  | ERR_NS_ASSIGNMENT nat
  | ERR_NS_DEFINITION nat
  | ERR_NS_DELETION nat
  | ERR_NS_EXTENSION nat
  | ERR_NS_REDEFINITION nat
  | ERR_UNDEFINED_IDENTIFIER string
  | TypeError

section \<open>Objects\<close>

text \<open>
  Property keys: strings and symbols. The engine compares a key with
  \<open>Symbol.toStringTag\<close> and with \<open>shared.symbol.namespace\<close>.
\<close>

datatype key = Name string | SymToStringTag | SymNamespace | Sym nat

text \<open>A data property with its attributes.\<close>

record jsprop =
  pvalue :: val
  writable :: bool
  enumerable :: bool
  configurable :: bool

text \<open>
  An ordinary object: its own data properties in the order \<open>Object.keys\<close> and
  \<open>Object.getOwnPropertyNames\<close> report them, and whether it is extensible. Of its
  prototype chain the engine only asks, in \<open>getExportsObjectKeys\<close>, whether a name is
  found in it (\<open>hasIn(proto, name)\<close>) and whether it is an enumerable own property of the
  prototype (\<open>isEnumerable(proto, name)\<close>). Accessor properties of user objects are not
  modelled.
\<close>

record jsobj =
  props :: "(key \<times> jsprop) list"
  extensible :: bool
  protoHas :: "string \<Rightarrow> bool"
  protoEnumerable :: "string \<Rightarrow> bool"

text \<open>
  A property descriptor as a proxy trap receives it: each field present or absent.
  Only data and generic descriptors are modelled.
\<close>

record descriptor =
  d_value :: "val option"
  d_writable :: "bool option"
  d_enumerable :: "bool option"
  d_configurable :: "bool option"

definition has_own :: "jsobj \<Rightarrow> key \<Rightarrow> bool" where
  "has_own ob k = (map_of (props ob) k \<noteq> None)"

text \<open>Replace the value stored under a key of an association list, keeping its place,
  or append the pair: what assigning a property of a dictionary object does to the order.\<close>

fun assoc_set :: "('k \<times> 'v) list \<Rightarrow> 'k \<Rightarrow> 'v \<Rightarrow> ('k \<times> 'v) list" where
  "assoc_set [] k v = [(k, v)]"
| "assoc_set ((k', v') # xs) k v =
     (if k' = k then (k, v) # xs else (k', v') # assoc_set xs k v)"

definition assoc_del :: "('k \<times> 'v) list \<Rightarrow> 'k \<Rightarrow> ('k \<times> 'v) list" where
  "assoc_del xs k = filter (\<lambda>p. fst p \<noteq> k) xs"

text \<open>\<open>keys(object)\<close> on an object: the enumerable own string keys.\<close>

fun string_keys :: "(key \<times> jsprop) list \<Rightarrow> bool \<Rightarrow> string list" where
  "string_keys [] onlyEnumerable = []"
| "string_keys ((Name n, p) # xs) onlyEnumerable =
     (if onlyEnumerable \<and> \<not> enumerable p then string_keys xs onlyEnumerable
      else n # string_keys xs onlyEnumerable)"
| "string_keys (_ # xs) onlyEnumerable = string_keys xs onlyEnumerable"

definition obj_keys :: "jsobj \<Rightarrow> string list" where
  "obj_keys ob = string_keys (props ob) True"

definition obj_ownPropertyNames :: "jsobj \<Rightarrow> string list" where
  "obj_ownPropertyNames ob = string_keys (props ob) False"

text \<open>
  \<open>object[k] = v\<close> on an object whose properties are data properties and whose
  prototype has no setter for \<open>k\<close>: \<open>None\<close> when the assignment is rejected (the
  property is not writable, or is absent from an object that is not extensible), which
  strict code turns into a \<open>TypeError\<close>.
\<close>

definition obj_set :: "jsobj \<Rightarrow> key \<Rightarrow> val \<Rightarrow> jsobj option" where
  "obj_set ob k v =
     (case map_of (props ob) k of
        Some p \<Rightarrow>
          (if writable p then Some (ob\<lparr>props := assoc_set (props ob) k (p\<lparr>pvalue := v\<rparr>)\<rparr>)
           else None)
      | None \<Rightarrow>
          (if extensible ob
           then Some (ob\<lparr>props := props ob @
                  [(k, \<lparr>pvalue = v, writable = True, enumerable = True, configurable = True\<rparr>)]\<rparr>)
           else None))"

definition obj_get :: "jsobj \<Rightarrow> key \<Rightarrow> val" where
  "obj_get ob k = (case map_of (props ob) k of Some p \<Rightarrow> pvalue p | None \<Rightarrow> Undefined)"

text \<open>\<open>Reflect.deleteProperty\<close>: the result and the object afterwards.\<close>

definition obj_delete :: "jsobj \<Rightarrow> key \<Rightarrow> bool \<times> jsobj" where
  "obj_delete ob k =
     (case map_of (props ob) k of
        None \<Rightarrow> (True, ob)
      | Some p \<Rightarrow>
          (if configurable p then (True, ob\<lparr>props := assoc_del (props ob) k\<rparr>)
           else (False, ob)))"

text \<open>\<open>Object.seal\<close>: every property not configurable, the object not extensible.\<close>

definition obj_seal :: "jsobj \<Rightarrow> jsobj" where
  "obj_seal ob =
     ob\<lparr>props := map (\<lambda>(k, p). (k, p\<lparr>configurable := False\<rparr>)) (props ob),
        extensible := False\<rparr>"

definition from_opt :: "'a option \<Rightarrow> 'a \<Rightarrow> 'a" where
  "from_opt x d = (case x of Some y \<Rightarrow> y | None \<Rightarrow> d)"

text \<open>
  \<open>Reflect.defineProperty\<close> with a data or generic descriptor on an object of data
  properties (ValidateAndApplyPropertyDescriptor of the language): the result and the
  object afterwards.
\<close>

definition obj_defineProperty :: "jsobj \<Rightarrow> key \<Rightarrow> descriptor \<Rightarrow> bool \<times> jsobj" where
  "obj_defineProperty ob k d =
     (case map_of (props ob) k of
        None \<Rightarrow>
          (if extensible ob
           then (True, ob\<lparr>props := props ob @
                   [(k, \<lparr>pvalue = from_opt (d_value d) Undefined,
                         writable = from_opt (d_writable d) False,
                         enumerable = from_opt (d_enumerable d) False,
                         configurable = from_opt (d_configurable d) False\<rparr>)]\<rparr>)
           else (False, ob))
      | Some p \<Rightarrow>
          (if \<not> configurable p \<and>
              (d_configurable d = Some True \<or>
               (d_enumerable d \<noteq> None \<and> d_enumerable d \<noteq> Some (enumerable p)) \<or>
               (\<not> writable p \<and>
                  (d_writable d = Some True \<or>
                   (d_value d \<noteq> None \<and> d_value d \<noteq> Some (pvalue p)))))
           then (False, ob)
           else (True, ob\<lparr>props := assoc_set (props ob) k
                   \<lparr>pvalue = from_opt (d_value d) (pvalue p),
                    writable = from_opt (d_writable d) (writable p),
                    enumerable = from_opt (d_enumerable d) (enumerable p),
                    configurable = from_opt (d_configurable d) (configurable p)\<rparr>\<rparr>)))"


section \<open>Entries and the state of the process\<close>

text \<open>
  A getter is a nullary closure of user code, or one the engine makes. The model keeps
  what calling a closure of user code does in the current state: it returns a value
  (\<open>Returns\<close>) or it throws (\<open>Throws\<close>); an export changes when the getter stored
  under the name is replaced. \<open>NamespaceGet n\<close> is the closure
  \<open>() => this.namespace[n]\<close> that \<open>assignExportsToNamespace\<close>, \<open>loaded\<close> and the
  mutable traps register.
\<close>

datatype getter = Returns val | Throws | NamespaceGet string

text \<open>\<open>package.options.cjs\<close>, the three toggles the engine reads.\<close>

record cjs_options =
  interop :: bool
  namedExports :: bool
  mutableNamespace :: bool

text \<open>
  A setter function object with the properties \<open>addSetter\<close> stamps on it: \<open>last\<close>,
  \<open>localNames\<close>, \<open>parent\<close> (the id of the importing entry) and \<open>type\<close>. Calling
  the function assigns local variables of the importer; the engine only looks at whether
  the call returns a truthy value, which is the field \<open>result\<close>. \<open>sid\<close> names the
  function object.
\<close>

record setter =
  sid :: nat
  last :: val
  localNames :: "string list"
  parent :: nat
  stype :: setter_type
  result :: bool

text \<open>
  A property of \<open>_namespace\<close>. \<open>addGetter\<close> defines each name as an accessor:
  \<open>Accessor\<close> reads and writes \<open>this.exports[name]\<close>; \<open>DefaultAccessor\<close>, for
  \<open>default\<close> on a CJS entry, reads \<open>this.exports\<close> and on assignment redefines the
  name as a data property (\<open>setProperty\<close>). An assignment to a name with no property
  makes a data property, \<open>Data\<close>.
\<close>

datatype slot = Accessor | DefaultAccessor | Data val

text \<open>
  The fields of \<open>Entry\<close> the engine reads and writes. Objects with a null prototype
  used as dictionaries (\<open>getters\<close>, \<open>setters\<close>, \<open>importedBindings\<close>, \<open>children\<close>,
  the string keys of \<open>_namespace\<close>) are association lists in insertion order, the order
  of \<open>for in\<close> and \<open>keys\<close>. \<open>children\<close> maps a name to the id of the child entry.
  \<open>namespaceProxied\<close> says that \<open>this.namespace\<close> is the proxy over \<open>_namespace\<close>
  the deferred \<open>type\<close> installs for a CJS entry, rather than \<open>_namespace\<close> itself.
  \<open>mod_loaded\<close> and \<open>mod_exports\<close> are \<open>this.module.loaded\<close> and
  \<open>this.module.exports\<close>; \<open>options\<close> is \<open>this.package.options.cjs\<close>;
  \<open>eparent\<close> is \<open>this.parent\<close>, the id of an entry or \<open>null\<close>. The
  deferred property \<open>type\<close> is modelled by its value, \<open>etype\<close>.
\<close>

record entry =
  changed :: bool
  loaded_state :: load_state
  namespaceFinalized :: bool
  ns :: "(string \<times> slot) list"
  namespaceProxied :: bool
  completeNamespace :: jsobj
  completeMutableNamespace :: jsobj
  partialNamespace :: jsobj
  partialMutableNamespace :: jsobj
  builtin :: bool
  circular :: bool
  exports :: val
  extname :: string
  getters :: "(string \<times> getter) list"
  eid :: nat
  importedBindings :: "(string \<times> bool) list"
  name :: string
  options :: cjs_options
  setters :: "(string \<times> setter list) list"
  etype :: entry_type
  mod_loaded :: bool
  mod_exports :: val
  children :: "(string \<times> nat) list"
  eparent :: "nat option"

text \<open>
  A call of a setter function by \<open>runSetter\<close>, as it is logged: the setter as it
  was before the call, with the \<open>last\<close> it had; the value resolved for it; the entry
  and the name whose setter pass made the call; and the locals \<open>isLoaded\<close> and
  \<open>isNsChanged\<close> and the argument \<open>updateType\<close> of that \<open>runSetter\<close>.
\<close>

record call =
  c_setter :: setter
  c_value :: val
  c_exporter :: nat
  c_name :: string
  c_loaded :: bool
  c_nsChanged :: bool
  c_kind :: update_type

text \<open>
  The state: the entries by id, the objects of user code by reference, and three logs,
  oldest first, that make what the engine does observable: \<open>trace\<close>, the calls of
  setter functions;
  \<open>bodies\<close>, the entries whose \<open>updateBindings\<close> got past the cycle guard and ran
  its getter and setter passes; and \<open>spreads\<close>, the entries whose \<open>updateBindings\<close>
  added itself to \<open>seen\<close> and went on to its pending parents.
\<close>

record state =
  entries :: "nat \<Rightarrow> entry option"
  heap :: "nat \<Rightarrow> jsobj option"
  trace :: "call list"
  bodies :: "nat list"
  spreads :: "nat list"

definition put_entry :: "state \<Rightarrow> nat \<Rightarrow> entry \<Rightarrow> state" where
  "put_entry s i e = s\<lparr>entries := (entries s)(i := Some e)\<rparr>"

definition isObjectLike :: "val \<Rightarrow> bool" where
  "isObjectLike v =
     (case v of Obj _ \<Rightarrow> True | Func _ \<Rightarrow> True | NsProxy _ _ \<Rightarrow> True
      | ExportsProxy _ \<Rightarrow> True | _ \<Rightarrow> False)"

definition truthy :: "val \<Rightarrow> bool" where
  "truthy v =
     (case v of Undefined \<Rightarrow> False | Null \<Rightarrow> False | Bool b \<Rightarrow> b | Num n \<Rightarrow> n \<noteq> 0
      | Str x \<Rightarrow> x \<noteq> [] | _ \<Rightarrow> True)"

text \<open>
  The object behind a value: the object of a reference, and for the proxy of
  \<open>proxyExports\<close> the object \<open>module.exports\<close> of its entry refers to.
\<close>

definition deref :: "state \<Rightarrow> val \<Rightarrow> nat option" where
  "deref s v =
     (case v of
        Obj r \<Rightarrow> Some r
      | Func r \<Rightarrow> Some r
      | ExportsProxy i \<Rightarrow>
          (case entries s i of
             Some e \<Rightarrow> (case mod_exports e of Obj r \<Rightarrow> Some r | Func r \<Rightarrow> Some r | _ \<Rightarrow> None)
           | None \<Rightarrow> None)
      | _ \<Rightarrow> None)"

text \<open>
  \<open>v[n]\<close>: a \<open>TypeError\<close> on \<open>null\<close> and \<open>undefined\<close>, the own property of an
  object, \<open>undefined\<close> otherwise.
\<close>

definition read_prop :: "state \<Rightarrow> val \<Rightarrow> string \<Rightarrow> error + val" where
  "read_prop s v n =
     (if v = Undefined \<or> v = Null then Inl TypeError
      else (case deref s v of
              None \<Rightarrow> Inr Undefined
            | Some r \<Rightarrow>
                (case heap s r of None \<Rightarrow> Inr Undefined | Some ob \<Rightarrow> Inr (obj_get ob (Name n)))))"

text \<open>\<open>v[n] = x\<close> in strict code: a rejected assignment throws.\<close>

definition write_prop :: "state \<Rightarrow> val \<Rightarrow> string \<Rightarrow> val \<Rightarrow> error + state" where
  "write_prop s v n x =
     (case deref s v of
        None \<Rightarrow> Inl TypeError
      | Some r \<Rightarrow>
          (case heap s r of
             None \<Rightarrow> Inl TypeError
           | Some ob \<Rightarrow>
               (case obj_set ob (Name n) x of
                  None \<Rightarrow> Inl TypeError
                | Some ob' \<Rightarrow> Inr (s\<lparr>heap := (heap s)(r := Some ob')\<rparr>))))"

text \<open>\<open>entry._namespace[n]\<close>, through the accessors \<open>addGetter\<close> defined.\<close>

definition ns_read :: "state \<Rightarrow> entry \<Rightarrow> string \<Rightarrow> error + val" where
  "ns_read s e n =
     (case map_of (ns e) n of
        None \<Rightarrow> Inr Undefined
      | Some (Data v) \<Rightarrow> Inr v
      | Some DefaultAccessor \<Rightarrow> Inr (exports e)
      | Some Accessor \<Rightarrow> read_prop s (exports e) n)"

text \<open>
  \<open>entry.namespace[n]\<close>: \<open>_namespace\<close> itself, or the \<open>get\<close> trap of the proxy of a
  CJS entry (\<open>Reflect.get\<close> on an \<open>exports\<close> that is not an object throws).
\<close>

definition namespace_read :: "state \<Rightarrow> entry \<Rightarrow> string \<Rightarrow> error + val" where
  "namespace_read s e n =
     (if namespaceProxied e then
        (if n = ''default'' then Inr (exports e)
         else if map_of (ns e) n \<noteq> None then
           (if isObjectLike (exports e) then read_prop s (exports e) n else Inl TypeError)
         else Inr Undefined)
      else ns_read s e n)"

fun callGetter :: "state \<Rightarrow> entry \<Rightarrow> getter \<Rightarrow> error + val" where
  "callGetter s e (Returns v) = Inr v"
| "callGetter s e Throws = Inl TypeError"
| "callGetter s e (NamespaceGet n) = namespace_read s e n"

section \<open>Export resolution\<close>

text \<open>
  \<open>tryGetter\<close>: the call of the getter inside \<open>try\<close>; a throw gives \<open>ERROR_GETTER\<close>.
  The entry is the one the closure was made for.
\<close>

definition tryGetter :: "state \<Rightarrow> entry \<Rightarrow> getter \<Rightarrow> val" where
  "tryGetter s e g = (case callGetter s e g of Inr v \<Rightarrow> v | Inl _ \<Rightarrow> ERROR_GETTER)"

definition getExportByName :: "state \<Rightarrow> entry \<Rightarrow> string \<Rightarrow> entry \<Rightarrow> val" where
  "getExportByName s e nm parentEntry =
     (let parentIsMJS = (extname parentEntry = ''.mjs'');
          parentNamedExports = (\<not> parentIsMJS \<and> namedExports (options parentEntry));
          noNamedExports = (\<not> parentNamedExports \<and> etype e \<noteq> TYPE_ESM)
      in if noNamedExports \<and> nm = ''default'' then exports e
         else if nm \<noteq> ''*'' then
           (case map_of (getters e) nm of
              Some g \<Rightarrow> tryGetter s e g
            | None \<Rightarrow> ERROR_GETTER)
         else
           (let parentMutableNamespace = (\<not> parentIsMJS \<and> mutableNamespace (options parentEntry));
                noMutableNamespace = (\<not> parentMutableNamespace \<or> extname e = ''.mjs'')
            in if noMutableNamespace
               then (if noNamedExports then NsProxy (eid e) Partial else NsProxy (eid e) Complete)
               else (if noNamedExports then NsProxy (eid e) PartialMutable
                     else NsProxy (eid e) CompleteMutable)))"

definition getExportByNameFast :: "state \<Rightarrow> entry \<Rightarrow> string \<Rightarrow> entry \<Rightarrow> val" where
  "getExportByNameFast s e nm parentEntry =
     (if nm \<noteq> ''*'' then
        (case map_of (getters e) nm of
           Some g \<Rightarrow> tryGetter s e g
         | None \<Rightarrow> ERROR_GETTER)
      else
        (let parentMutableNamespace =
               (extname parentEntry \<noteq> ''.mjs'' \<and> mutableNamespace (options parentEntry));
             noMutableNamespace = (\<not> parentMutableNamespace \<or> extname e = ''.mjs'')
         in if noMutableNamespace then NsProxy (eid e) Complete
            else NsProxy (eid e) CompleteMutable))"

section \<open>Registration\<close>

text \<open>
  \<open>addGetter\<close>: the getter is stored under the name, and the name is (re)defined on
  \<open>_namespace\<close> as a configurable, enumerable accessor. \<open>_namespace\<close> is never made
  non-extensible and its string-keyed properties stay configurable, so the definition
  succeeds. The properties \<open>id\<close> and \<open>owner\<close> the source stamps on the getter are
  not read by the engine. For \<open>default\<close> on an ESM entry the source also calls the
  getter once, to rename an anonymous function; the call is guarded and changes nothing
  the model holds.
\<close>

definition addGetter :: "entry \<Rightarrow> string \<Rightarrow> getter \<Rightarrow> entry" where
  "addGetter e n g =
     e\<lparr>getters := assoc_set (getters e) n g,
       ns := assoc_set (ns e) n
               (if n = ''default'' \<and> etype e = TYPE_CJS then DefaultAccessor else Accessor)\<rparr>"

text \<open>The loop of \<open>addSetter\<close> over \<open>localNames\<close>: seed \<open>false\<close> for a name not present.\<close>

fun seedBindings :: "(string \<times> bool) list \<Rightarrow> string list \<Rightarrow> (string \<times> bool) list" where
  "seedBindings ib [] = ib"
| "seedBindings ib (n # xs) =
     seedBindings (if map_of ib n = None then ib @ [(n, False)] else ib) xs"

text \<open>
  \<open>addSetter(name, localNames, setter, parentEntry)\<close> on the entry \<open>i\<close>; the parent
  entry is given by its id \<open>p\<close>. \<open>hasType\<close> says whether the function object already
  has an own property \<open>type\<close>. The entry and the parent may be the same object, so the
  parent is read again after the entry was written.
\<close>

definition addSetter :: "state \<Rightarrow> nat \<Rightarrow> string \<Rightarrow> string list \<Rightarrow> setter \<Rightarrow> bool \<Rightarrow> nat \<Rightarrow> state" where
  "addSetter s i n locals st hasType p =
     (case entries s i of
        None \<Rightarrow> s
      | Some e \<Rightarrow>
          (let st' = st\<lparr>last := INITIAL_VALUE, localNames := locals, parent := p,
                        stype := (if hasType then stype st else SETTER_TYPE_STATIC_IMPORT)\<rparr>;
               old = (case map_of (setters e) n of None \<Rightarrow> [] | Some l \<Rightarrow> l);
               s1 = put_entry s i (e\<lparr>setters := assoc_set (setters e) n (old @ [st'])\<rparr>)
           in (case entries s1 p of
                 None \<Rightarrow> s1
               | Some pe \<Rightarrow>
                   put_entry s1 p
                     (pe\<lparr>importedBindings := seedBindings (importedBindings pe) locals\<rparr>))))"

section \<open>Export names and finalization\<close>

text \<open>
  The argument \<open>names\<close> of \<open>updateBindings\<close>, \<open>runGetters\<close>, \<open>runSetters\<close> and
  \<open>assignExportsToNamespace\<close>: absent, \<open>null\<close>, a string or an array. A string
  is made an array of one name by \<open>updateBindings\<close>; \<open>for of\<close> over a string
  goes through its characters, and over \<open>null\<close> throws.
\<close>

datatype names = NamesUndefined | NamesNull | NamesString string | NamesArray "string list"

text \<open>
  The object whose keys \<open>keys\<close> and \<open>ownPropertyNames\<close> list for a value: none for
  a value that is not an object (both helpers give the empty list then).
\<close>

definition object_of :: "state \<Rightarrow> val \<Rightarrow> jsobj option" where
  "object_of s v = (case deref s v of None \<Rightarrow> None | Some r \<Rightarrow> heap s r)"

definition getExportsObjectKeys :: "state \<Rightarrow> entry \<Rightarrow> val \<Rightarrow> string list" where
  "getExportsObjectKeys s e exported =
     (case object_of s exported of
        None \<Rightarrow> []
      | Some ob \<Rightarrow>
          (if etype e = TYPE_ESM \<or> etype e = TYPE_WASM then obj_keys ob
           else
             (let isFunc = (case exported of Func _ \<Rightarrow> True | _ \<Rightarrow> False)
              in filter
                   (\<lambda>n. \<not> (\<not> (case map_of (props ob) (Name n) of
                                   Some p \<Rightarrow> enumerable p | None \<Rightarrow> False) \<and>
                             (n = ''__esModule'' \<or>
                              (isFunc \<and> n = ''prototype'') \<or>
                              (protoHas ob n \<and> \<not> protoEnumerable ob n))))
                   (obj_ownPropertyNames ob))))"

definition assignExportsToNamespace :: "state \<Rightarrow> entry \<Rightarrow> names \<Rightarrow> error + entry" where
  "assignExportsToNamespace s e nms =
     (if \<not> isObjectLike (exports e) then Inr e
      else
        (let isCJS = (etype e = TYPE_CJS);
             step = (\<lambda>n e'. if \<not> (isCJS \<and> n = ''default'') \<and> map_of (getters e') n = None
                             then addGetter e' n (NamespaceGet n) else e')
         in (case nms of
               NamesUndefined \<Rightarrow>
                 Inr (fold step
                        (if loaded_state e = LOAD_COMPLETED then map fst (ns e)
                         else getExportsObjectKeys s e (exports e)) e)
             | NamesNull \<Rightarrow> Inl TypeError
             | NamesString x \<Rightarrow> Inr (fold step (map (\<lambda>c. [c]) x) e)
             | NamesArray xs \<Rightarrow> Inr (fold step xs e))))"

text \<open>
  The loop of \<open>finalizeNamespace\<close> that assigns \<open>INITIAL_VALUE\<close> under each name to
  two raw namespace objects in turn. The result is the two objects and whether every
  assignment was accepted; the loop stops at the first one rejected, which throws.
\<close>

fun assignInitial :: "jsobj \<Rightarrow> jsobj \<Rightarrow> string list \<Rightarrow> (jsobj \<times> jsobj) \<times> bool" where
  "assignInitial a b [] = ((a, b), True)"
| "assignInitial a b (n # xs) =
     (case obj_set a (Name n) INITIAL_VALUE of
        None \<Rightarrow> ((a, b), False)
      | Some a' \<Rightarrow>
          (case obj_set b (Name n) INITIAL_VALUE of
             None \<Rightarrow> ((a', b), False)
           | Some b' \<Rightarrow> assignInitial a' b' xs))"

text \<open>
  The names \<open>finalizeNamespace\<close> gives the partial namespaces of an entry that is not
  an ESM entry: the sorted keys of the exports with \<open>default\<close> added for a builtin
  module, \<open>default\<close> alone otherwise.
\<close>

definition partialNames :: "state \<Rightarrow> entry \<Rightarrow> string list" where
  "partialNames s e =
     (if builtin e then
        (let ob = object_of s (exports e);
             ks = (case ob of None \<Rightarrow> [] | Some o' \<Rightarrow> obj_keys o');
             hasDefault = (case ob of None \<Rightarrow> False | Some o' \<Rightarrow> has_own o' (Name ''default''))
         in sort (if hasDefault then ks else ks @ [''default'']))
      else [''default''])"

text \<open>
  The block of \<open>finalizeNamespace\<close> for an entry that is not an ESM entry: for a builtin
  module \<open>default\<close> is deleted from both partial namespaces first; then the names are
  assigned and \<open>_partialNamespace\<close> is sealed.
\<close>

definition finalizePartial :: "state \<Rightarrow> entry \<Rightarrow> (error \<times> entry) + entry" where
  "finalizePartial s e =
     (let pm0 = (if builtin e
                 then snd (obj_delete (partialMutableNamespace e) (Name ''default''))
                 else partialMutableNamespace e);
          p0 = (if builtin e
                then snd (obj_delete (partialNamespace e) (Name ''default''))
                else partialNamespace e);
          r = assignInitial pm0 p0 (partialNames s e);
          e' = e\<lparr>partialMutableNamespace := fst (fst r), partialNamespace := snd (fst r)\<rparr>
      in if \<not> snd r then Inl (TypeError, e')
         else Inr (e'\<lparr>partialNamespace := obj_seal (snd (fst r))\<rparr>))"

text \<open>
  \<open>finalizeNamespace\<close>. \<open>keys(this.namespace)\<close> are the keys of \<open>_namespace\<close>
  (the proxy of a CJS entry has no \<open>ownKeys\<close> trap). \<open>sort\<close> orders strings by
  their characters, as \<open>Array#sort\<close> does by code units. The left result is a throw,
  with the entry as the throw leaves it.
\<close>

definition finalizeNamespace :: "state \<Rightarrow> entry \<Rightarrow> (error \<times> entry) + entry" where
  "finalizeNamespace s e =
     (if namespaceFinalized e then Inr e
      else
        (let e1 = e\<lparr>namespaceFinalized := True\<rparr>;
             r = assignInitial (completeMutableNamespace e1) (completeNamespace e1)
                   (sort (map fst (ns e1)));
             e2 = e1\<lparr>completeMutableNamespace := fst (fst r), completeNamespace := snd (fst r)\<rparr>
         in if \<not> snd r then Inl (TypeError, e2)
            else
              (let e3 = e2\<lparr>completeNamespace := obj_seal (snd (fst r))\<rparr>
               in if etype e3 = TYPE_ESM then Inr e3 else finalizePartial s e3)))"

section \<open>The loaded state\<close>

text \<open>
  Modelled from the spec: \<open>proxyExports\<close> (\<open>util/proxy-exports.js\<close>) is not among
  the sources. The spec says of it that the raw exported value is wrapped behind an
  export-proxy so that direct named access stays live. A value that is not an object
  cannot be wrapped and is returned as it is.
\<close>

definition proxyExports :: "nat \<Rightarrow> entry \<Rightarrow> val" where
  "proxyExports i e = (if isObjectLike (mod_exports e) then ExportsProxy i else mod_exports e)"

text \<open>\<open>children[name].module.loaded\<close> for every child; an id with no entry counts as
  not loaded.\<close>

definition childrenLoaded :: "state \<Rightarrow> entry \<Rightarrow> bool" where
  "childrenLoaded s e =
     list_all (\<lambda>(n, c). case entries s c of None \<Rightarrow> False | Some ce \<Rightarrow> mod_loaded ce)
       (children e)"

text \<open>The descriptor \<open>pseudoDescriptor\<close>.\<close>

definition pseudoDescriptor :: descriptor where
  "pseudoDescriptor =
     \<lparr>d_value = Some (Bool True), d_writable = None, d_enumerable = None, d_configurable = None\<rparr>"

text \<open>
  The interop step of \<open>loaded\<close> for an ESM or WASM entry: the module collapses to its
  \<open>default\<close> export when that is the only name, else \<open>__esModule\<close> is defined on
  the exports object (\<open>Reflect.defineProperty\<close> throws when \<open>exports\<close> is not an
  object, and its result is ignored).
\<close>

definition interopStep :: "state \<Rightarrow> nat \<Rightarrow> entry \<Rightarrow> string list \<Rightarrow> (error \<times> state) + state" where
  "interopStep s i e names =
     (if interop (options e) \<and> extname e \<noteq> ''.mjs'' then
        (if names = [''default''] then
           (case read_prop s (exports e) ''default'' of
              Inl err \<Rightarrow> Inl (err, put_entry s i e)
            | Inr v \<Rightarrow> Inr (put_entry s i (e\<lparr>mod_exports := v\<rparr>)))
         else if map_of (getters e) ''__esModule'' = None then
           (case deref s (exports e) of
              None \<Rightarrow> Inl (TypeError, put_entry s i e)
            | Some r \<Rightarrow>
                (case heap s r of
                   None \<Rightarrow> Inr (put_entry s i e)
                 | Some ob \<Rightarrow>
                     Inr (put_entry
                            (s\<lparr>heap := (heap s)
                                 (r := Some (snd (obj_defineProperty ob (Name ''__esModule'')
                                                     pseudoDescriptor)))\<rparr>) i e)))
         else Inr (put_entry s i e))
      else Inr (put_entry s i e))"

text \<open>The call \<open>this.finalizeNamespace()\<close> that ends \<open>loaded\<close>, on the entry \<open>i\<close>.\<close>

definition finalizeIn :: "state \<Rightarrow> nat \<Rightarrow> (error \<times> state) + state" where
  "finalizeIn s i =
     (case entries s i of
        None \<Rightarrow> Inr s
      | Some e \<Rightarrow>
          (case finalizeNamespace s e of
             Inl (err, e') \<Rightarrow> Inl (err, put_entry s i e')
           | Inr e' \<Rightarrow> Inr (put_entry s i e')))"

text \<open>
  \<open>loaded()\<close> on the entry \<open>i\<close>. The source returns \<open>this._loaded\<close>, which is the
  field \<open>loaded_state\<close> of the entry in the state returned. A throw is a left result,
  with the state as the throw leaves it.
\<close>

definition loaded :: "state \<Rightarrow> nat \<Rightarrow> (error \<times> state) + state" where
  "loaded s i =
     (case entries s i of
        None \<Rightarrow> Inr s
      | Some e \<Rightarrow>
          (if loaded_state e \<noteq> LOAD_INCOMPLETE then Inr s
           else if \<not> mod_loaded e then Inr s
           else if \<not> childrenLoaded s e then Inr s
           else if etype e = TYPE_ESM \<or> etype e = TYPE_WASM then
             (let names = getExportsObjectKeys s e (exports e);
                  e1 = e\<lparr>loaded_state := LOAD_COMPLETED, namespaceProxied := False\<rparr>
              in (case assignExportsToNamespace s e1 (NamesArray names) of
                    Inl err \<Rightarrow> Inl (err, put_entry s i e1)
                  | Inr e2 \<Rightarrow>
                      (case interopStep s i e2 names of
                         Inl x \<Rightarrow> Inl x
                       | Inr s' \<Rightarrow> finalizeIn s' i)))
           else
             (let exported = mod_exports e;
                  names = getExportsObjectKeys s e exported;
                  e1 = e\<lparr>loaded_state := LOAD_COMPLETED\<rparr>;
                  esModule = (case read_prop s exported ''__esModule'' of
                                Inl _ \<Rightarrow> False | Inr v \<Rightarrow> truthy v);
                  e2 = (if exported \<noteq> Null \<and> exported \<noteq> Undefined \<and> esModule \<and>
                           etype e1 = TYPE_CJS \<and> interop (options e1)
                        then e1\<lparr>namespaceProxied := False, etype := TYPE_PSEUDO\<rparr> else e1);
                  e3 = (if etype e2 = TYPE_CJS \<and> map_of (getters e2) ''default'' = None
                        then addGetter e2 ''default'' (NamespaceGet ''default'') else e2);
                  e4 = e3\<lparr>exports := (if etype e3 = TYPE_CJS then proxyExports i e3
                                        else exported)\<rparr>
              in (case assignExportsToNamespace s e4 (NamesArray names) of
                    Inl err \<Rightarrow> Inl (err, put_entry s i e4)
                  | Inr e5 \<Rightarrow> finalizeIn (put_entry s i e5) i))))"

section \<open>The propagation engine\<close>

text \<open>\<open>_namespace[n] = v\<close> in \<open>runGetter\<close>, after \<open>entry._changed = true\<close>.\<close>

definition ns_write :: "state \<Rightarrow> nat \<Rightarrow> entry \<Rightarrow> string \<Rightarrow> val \<Rightarrow> (error \<times> state) + state" where
  "ns_write s i e n v =
     (let e1 = e\<lparr>changed := True\<rparr>
      in (case map_of (ns e) n of
            Some Accessor \<Rightarrow>
              (case write_prop (put_entry s i e1) (exports e) n v of
                 Inl err \<Rightarrow> Inl (err, put_entry s i e1)
               | Inr s' \<Rightarrow> Inr s')
          | _ \<Rightarrow> Inr (put_entry s i (e1\<lparr>ns := assoc_set (ns e) n (Data v)\<rparr>))))"

text \<open>
  \<open>runGetter\<close>. A name with no getter makes \<open>tryGetter\<close> call \<open>undefined\<close>, a
  throw it turns into \<open>ERROR_GETTER\<close>. Reading \<open>_namespace[name]\<close> runs outside any
  \<open>try\<close>.
\<close>

definition runGetter :: "state \<Rightarrow> nat \<Rightarrow> string \<Rightarrow> (error \<times> state) + state" where
  "runGetter s i n =
     (case entries s i of
        None \<Rightarrow> Inr s
      | Some e \<Rightarrow>
          (let v = (case map_of (getters e) n of None \<Rightarrow> ERROR_GETTER | Some g \<Rightarrow> tryGetter s e g)
           in if v = ERROR_STAR then Inr (put_entry s i (e\<lparr>ns := assoc_del (ns e) n\<rparr>))
              else if map_of (ns e) n = None then ns_write s i e n v
              else (case ns_read s e n of
                      Inl err \<Rightarrow> Inl (err, s)
                    | Inr cur \<Rightarrow> if cur = v then Inr s else ns_write s i e n v)))"

fun runGetterList :: "state \<Rightarrow> nat \<Rightarrow> string list \<Rightarrow> (error \<times> state) + state" where
  "runGetterList s i [] = Inr s"
| "runGetterList s i (n # xs) =
     (case runGetter s i n of Inl x \<Rightarrow> Inl x | Inr s' \<Rightarrow> runGetterList s' i xs)"

definition runGetters :: "state \<Rightarrow> nat \<Rightarrow> names \<Rightarrow> (error \<times> state) + state" where
  "runGetters s i nms =
     (case entries s i of
        None \<Rightarrow> Inr s
      | Some e \<Rightarrow>
          (if etype e = TYPE_ESM then
             (case nms of
                NamesArray xs \<Rightarrow> runGetterList s i xs
              | _ \<Rightarrow> runGetterList s i (map fst (getters e)))
           else if mod_loaded e then
             (case assignExportsToNamespace s e nms of
                Inl err \<Rightarrow> Inl (err, s)
              | Inr e' \<Rightarrow> Inr (put_entry s i e'))
           else Inr s))"

text \<open>
  The callback \<open>updateBindings\<close> hands to \<open>runSetters\<close>, called with a setter that
  fired: the imported bindings of the setter's parent become \<open>true\<close> unless the value
  delivered was \<open>ERROR_GETTER\<close>, and with \<open>shouldUpdateParents\<close> the parent is put
  into \<open>parentsMap\<close> under its name. \<open>parentsMap\<close> is \<open>None\<close> while undefined.
\<close>

definition callback ::
  "bool \<Rightarrow> setter \<Rightarrow> state \<Rightarrow> (string \<times> nat) list option \<Rightarrow> state \<times> (string \<times> nat) list option"
where
  "callback shouldUpdateParents st s pm =
     (case entries s (parent st) of
        None \<Rightarrow> (s, pm)
      | Some pe \<Rightarrow>
          (let pe' = (if last st \<noteq> ERROR_GETTER
                      then pe\<lparr>importedBindings :=
                                fold (\<lambda>n ib. assoc_set ib n True) (localNames st) (importedBindings pe)\<rparr>
                      else pe)
           in (put_entry s (parent st) pe',
               if shouldUpdateParents
               then Some (assoc_set (case pm of None \<Rightarrow> [] | Some m \<Rightarrow> m) (name pe) (parent st))
               else pm)))"

text \<open>What a setter function is given for a resolved value.\<close>

definition setterValue :: "val \<Rightarrow> val" where
  "setterValue v = (if v = ERROR_GETTER then Undefined else v)"

definition remove_nth :: "nat \<Rightarrow> 'a list \<Rightarrow> 'a list" where
  "remove_nth k xs = take k xs @ drop (Suc k) xs"

text \<open>
  The value \<open>runSetter\<close> resolves for a setter: \<open>getExportByNameFast\<close> for an ESM
  exporter, \<open>getExportByName\<close> otherwise.
\<close>

definition resolveExport :: "bool \<Rightarrow> state \<Rightarrow> entry \<Rightarrow> string \<Rightarrow> entry \<Rightarrow> val" where
  "resolveExport isESM s e n pe =
     (if isESM then getExportByNameFast s e n pe else getExportByName s e n pe)"

text \<open>The condition under which \<open>runSetter\<close> calls a setter, for the value resolved.\<close>

definition setterFires :: "setter \<Rightarrow> val \<Rightarrow> bool \<Rightarrow> bool \<Rightarrow> update_type \<Rightarrow> bool" where
  "setterFires st v isLoaded isNsChanged ut =
     (let ty = stype st;
          chg = (ty \<noteq> SETTER_TYPE_DYNAMIC_IMPORT \<and> last st \<noteq> v);
          isDynamicImport = (isLoaded \<and> ty = SETTER_TYPE_DYNAMIC_IMPORT);
          isExportFrom = (ty = SETTER_TYPE_EXPORT_FROM);
          isExportNs = (isNsChanged \<and> ty = SETTER_TYPE_NAMESPACE);
          isInit = (ut = UPDATE_TYPE_INIT)
      in chg \<or> isDynamicImport \<or> isExportFrom \<or> isExportNs \<or> isInit)"

text \<open>
  What \<open>runSetter\<close> does with a setter that fires, the one at index \<open>k\<close> of the list
  \<open>l\<close> of the entry \<open>e\<close>: \<open>setter.last\<close> becomes the value, the function is called
  (which \<open>trace\<close> logs; the function is given \<open>setterValue\<close> of the value), a
  dynamic-import setter of a loaded exporter whose call returned a truthy value is
  spliced out, and the callback is called unless the call of an export-from setter with
  an unchanged value returned a falsy value.
\<close>

definition fireSetter ::
  "nat \<Rightarrow> state \<Rightarrow> nat \<Rightarrow> entry \<Rightarrow> string \<Rightarrow> setter list \<Rightarrow> val \<Rightarrow> bool \<Rightarrow> bool \<Rightarrow>
   update_type \<Rightarrow> bool \<Rightarrow> (string \<times> nat) list option \<Rightarrow>
   state \<times> (string \<times> nat) list option"
where
  "fireSetter k s i e n l v isLoaded isNsChanged ut parents pm =
     (let st = l ! k;
          ty = stype st;
          chg = (ty \<noteq> SETTER_TYPE_DYNAMIC_IMPORT \<and> last st \<noteq> v);
          isDynamicImport = (isLoaded \<and> ty = SETTER_TYPE_DYNAMIC_IMPORT);
          isExportFrom = (ty = SETTER_TYPE_EXPORT_FROM);
          st' = st\<lparr>last := v\<rparr>;
          l' = (if result st' \<and> isDynamicImport then remove_nth k l else l[k := st']);
          s1 = (put_entry s i (e\<lparr>setters := assoc_set (setters e) n l'\<rparr>))
                 \<lparr>trace := trace s @
                    [\<lparr>c_setter = st, c_value = v, c_exporter = i, c_name = n,
                      c_loaded = isLoaded, c_nsChanged = isNsChanged, c_kind = ut\<rparr>]\<rparr>
      in if \<not> result st' \<and> isExportFrom \<and> \<not> chg then (s1, pm)
         else callback parents st' s1 pm)"

text \<open>
  One turn of the \<open>while (length--)\<close> loop of \<open>runSetter\<close>, at index \<open>k\<close>.
  \<open>isESM\<close>, \<open>isLoaded\<close> and \<open>isNsChanged\<close> were read before the loop. The
  setter list is read from the entry at every turn, as the source reads the array it may
  have spliced. A setter whose parent is not an entry of the state, or an index past the
  end of the array, is a read of a property of \<open>undefined\<close>. A value \<open>ERROR_STAR\<close>
  splices the setter out and throws.
\<close>

definition runSetterStep ::
  "nat \<Rightarrow> state \<Rightarrow> nat \<Rightarrow> string \<Rightarrow> bool \<Rightarrow> bool \<Rightarrow> bool \<Rightarrow> bool \<Rightarrow> update_type \<Rightarrow>
   (string \<times> nat) list option \<Rightarrow> (error \<times> state) + (state \<times> (string \<times> nat) list option)"
where
  "runSetterStep k s i n isESM isLoaded isNsChanged parents ut pm =
     (case entries s i of
        None \<Rightarrow> Inr (s, pm)
      | Some e \<Rightarrow>
          (let l = (case map_of (setters e) n of None \<Rightarrow> [] | Some l' \<Rightarrow> l')
           in if length l \<le> k then Inl (TypeError, s)
              else
                (case entries s (parent (l ! k)) of
                   None \<Rightarrow> Inl (TypeError, s)
                 | Some pe \<Rightarrow>
                     (let v = resolveExport isESM s e n pe
                      in if v = ERROR_STAR
                         then Inl (ERR_EXPORT_STAR_CONFLICT i n,
                                   put_entry s i
                                     (e\<lparr>setters := assoc_set (setters e) n (remove_nth k l)\<rparr>))
                         else if setterFires (l ! k) v isLoaded isNsChanged ut
                         then Inr (fireSetter k s i e n l v isLoaded isNsChanged ut parents pm)
                         else Inr (s, pm)))))"

fun runSetterLoop ::
  "nat \<Rightarrow> state \<Rightarrow> nat \<Rightarrow> string \<Rightarrow> bool \<Rightarrow> bool \<Rightarrow> bool \<Rightarrow> bool \<Rightarrow> update_type \<Rightarrow>
   (string \<times> nat) list option \<Rightarrow> (error \<times> state) + (state \<times> (string \<times> nat) list option)"
where
  "runSetterLoop 0 s i n isESM isLoaded isNsChanged parents ut pm = Inr (s, pm)"
| "runSetterLoop (Suc k) s i n isESM isLoaded isNsChanged parents ut pm =
     (case runSetterStep k s i n isESM isLoaded isNsChanged parents ut pm of
        Inl x \<Rightarrow> Inl x
      | Inr (s', pm') \<Rightarrow> runSetterLoop k s' i n isESM isLoaded isNsChanged parents ut pm')"

definition runSetter ::
  "state \<Rightarrow> nat \<Rightarrow> string \<Rightarrow> bool \<Rightarrow> update_type \<Rightarrow> (string \<times> nat) list option \<Rightarrow>
   (error \<times> state) + (state \<times> (string \<times> nat) list option)"
where
  "runSetter s i n parents ut pm =
     (case entries s i of
        None \<Rightarrow> Inr (s, pm)
      | Some e \<Rightarrow>
          (case map_of (setters e) n of
             None \<Rightarrow> Inr (s, pm)
           | Some l \<Rightarrow>
               runSetterLoop (length l) s i n (etype e = TYPE_ESM)
                 (loaded_state e = LOAD_COMPLETED) (changed e) parents ut pm))"

fun runSetterList ::
  "state \<Rightarrow> nat \<Rightarrow> string list \<Rightarrow> bool \<Rightarrow> update_type \<Rightarrow> (string \<times> nat) list option \<Rightarrow>
   (error \<times> state) + (state \<times> (string \<times> nat) list option)"
where
  "runSetterList s i [] parents ut pm = Inr (s, pm)"
| "runSetterList s i (n # xs) parents ut pm =
     (case runSetter s i n parents ut pm of
        Inl x \<Rightarrow> Inl x
      | Inr (s', pm') \<Rightarrow> runSetterList s' i xs parents ut pm')"

definition runSetters ::
  "state \<Rightarrow> nat \<Rightarrow> names \<Rightarrow> bool \<Rightarrow> update_type \<Rightarrow>
   (error \<times> state) + (state \<times> (string \<times> nat) list option)"
where
  "runSetters s i nms parents ut =
     (case entries s i of
        None \<Rightarrow> Inr (s, None)
      | Some e \<Rightarrow>
          (case nms of
             NamesArray xs \<Rightarrow> runSetterList s i xs parents ut None
           | _ \<Rightarrow> runSetterList s i (map fst (setters e)) parents ut None))"

text \<open>\<open>shouldUpdateParents\<close> and the update type handed to the parents.\<close>

definition shouldUpdateParents :: "entry \<Rightarrow> update_type \<Rightarrow> bool" where
  "shouldUpdateParents e ut = (circular e \<or> ut = UPDATE_TYPE_LIVE \<or> ut = UPDATE_TYPE_INIT)"

definition parentUpdateType :: "update_type \<Rightarrow> update_type" where
  "parentUpdateType ut = (if ut \<noteq> UPDATE_TYPE_DEFAULT then UPDATE_TYPE_LIVE else ut)"

definition normalizeNames :: "names \<Rightarrow> names" where
  "normalizeNames nms = (case nms of NamesString x \<Rightarrow> NamesArray [x] | _ \<Rightarrow> nms)"

definition resetChanged :: "state \<Rightarrow> nat \<Rightarrow> state" where
  "resetChanged s i =
     (case entries s i of None \<Rightarrow> s | Some e \<Rightarrow> put_entry s i (e\<lparr>changed := False\<rparr>))"

text \<open>
  The loop over \<open>parentsMap\<close> that ends \<open>updateBindings\<close>: for each parent,
  \<open>parentEntry.loaded()\<close> and then the recursive call \<open>upd\<close>, which shares the set
  \<open>seen\<close>. \<open>None\<close> is a recursive call that ran out of fuel.
\<close>

fun forParents ::
  "(state \<Rightarrow> nat \<Rightarrow> nat set \<Rightarrow> ((error \<times> state) + (state \<times> nat set option)) option) \<Rightarrow>
   nat list \<Rightarrow> state \<Rightarrow> nat set \<Rightarrow> ((error \<times> state) + (state \<times> nat set option)) option"
where
  "forParents upd [] s seen = Some (Inr (s, Some seen))"
| "forParents upd (p # ps) s seen =
     (case loaded s p of
        Inl x \<Rightarrow> Some (Inl x)
      | Inr s1 \<Rightarrow>
          (case upd s1 p seen of
             None \<Rightarrow> None
           | Some (Inl x) \<Rightarrow> Some (Inl x)
           | Some (Inr (s2, seen2)) \<Rightarrow>
               forParents upd ps s2 (case seen2 of None \<Rightarrow> seen | Some sn \<Rightarrow> sn)))"

text \<open>
  \<open>updateBindings(names, updateType, seen)\<close> on the entry \<open>i\<close>. The first argument
  bounds the depth of the recursion into parents; \<open>None\<close> is a call that needed more.
  A left result is a throw, with the state as the throw leaves it; a right result is the
  state and the set \<open>seen\<close> at the return (\<open>None\<close> while undefined). An id with no
  entry does nothing.
\<close>

primrec updateBindings ::
  "nat \<Rightarrow> state \<Rightarrow> nat \<Rightarrow> names \<Rightarrow> update_type \<Rightarrow> nat set option \<Rightarrow>
   ((error \<times> state) + (state \<times> nat set option)) option"
where
  "updateBindings 0 s i nms ut seen = None"
| "updateBindings (Suc fuel) s i nms ut seen =
     (case entries s i of
        None \<Rightarrow> Some (Inr (s, seen))
      | Some e \<Rightarrow>
          (if shouldUpdateParents e ut \<and> (case seen of None \<Rightarrow> False | Some sn \<Rightarrow> i \<in> sn)
           then Some (Inr (s, seen))
           else
             (let nms' = normalizeNames nms;
                  s0 = (put_entry s i (e\<lparr>changed := False\<rparr>))\<lparr>bodies := bodies s @ [i]\<rparr>
              in (case runGetters s0 i nms' of
                    Inl x \<Rightarrow> Some (Inl x)
                  | Inr s1 \<Rightarrow>
                      (case runSetters s1 i nms' (shouldUpdateParents e ut) ut of
                         Inl x \<Rightarrow> Some (Inl x)
                       | Inr (s2, pm) \<Rightarrow>
                           (case pm of
                              None \<Rightarrow> Some (Inr (resetChanged s2 i, seen))
                            | Some m \<Rightarrow>
                                forParents
                                  (\<lambda>s' p sn. updateBindings fuel s' p NamesNull
                                               (parentUpdateType ut) (Some sn))
                                  (map snd m)
                                  ((resetChanged s2 i)\<lparr>spreads := spreads s2 @ [i]\<rparr>)
                                  (insert i (case seen of None \<Rightarrow> {} | Some sn \<Rightarrow> sn))))))))"

section \<open>The traps of the readonly namespace proxies\<close>

text \<open>
  A frame of the stack \<open>isCalledFromStrictCode\<close> inspects: its file name (\<open>None\<close>
  when \<open>getFileName()\<close> gives nothing), whether \<open>isOwnPath\<close> holds of the name,
  whether the frame is native, and whether \<open>getFunction()\<close> is \<open>undefined\<close>, which is
  what V8 answers for a function of strict code.
\<close>

record frame =
  fileName :: "string option"
  ownPath :: bool
  isNative :: bool
  functionUndefined :: bool

fun isCalledFromStrictCode :: "frame list \<Rightarrow> bool" where
  "isCalledFromStrictCode [] = False"
| "isCalledFromStrictCode (f # fs) =
     (if (case fileName f of None \<Rightarrow> False | Some x \<Rightarrow> x \<noteq> []) \<and> \<not> ownPath f \<and> \<not> isNative f
      then functionUndefined f
      else isCalledFromStrictCode fs)"

text \<open>The raw namespace object behind each proxy.\<close>

fun rawView :: "entry \<Rightarrow> view \<Rightarrow> jsobj" where
  "rawView e Complete = completeNamespace e"
| "rawView e CompleteMutable = completeMutableNamespace e"
| "rawView e Partial = partialNamespace e"
| "rawView e PartialMutable = partialMutableNamespace e"

fun setRawView :: "entry \<Rightarrow> view \<Rightarrow> jsobj \<Rightarrow> entry" where
  "setRawView e Complete ob = e\<lparr>completeNamespace := ob\<rparr>"
| "setRawView e CompleteMutable ob = e\<lparr>completeMutableNamespace := ob\<rparr>"
| "setRawView e Partial ob = e\<lparr>partialNamespace := ob\<rparr>"
| "setRawView e PartialMutable ob = e\<lparr>partialMutableNamespace := ob\<rparr>"

text \<open>
  The three traps \<open>assignImmutableNamespaceHandlerTraps\<close> installs, as functions of the
  stack of the call, the entry, the proxy's target (by its kind) and the arguments. The
  result is what the trap returns and the entry afterwards, or the error thrown. What the
  language does with the trap's result (the invariants it checks after a trap returns) is
  outside the traps.
\<close>

definition immutable_defineProperty ::
  "frame list \<Rightarrow> entry \<Rightarrow> view \<Rightarrow> key \<Rightarrow> descriptor \<Rightarrow> error + (bool \<times> entry)"
where
  "immutable_defineProperty frames e vw k d =
     (let namespace = rawView e vw;
          attempt = (namespaceFinalized e \<and>
                     \<not> (d_writable d = Some False \<and> d_value d = None \<and> has_own namespace k));
          (ok, ob') = (if attempt then obj_defineProperty namespace k d else (False, namespace))
      in if attempt \<and> ok
         then Inr (k = SymToStringTag \<or>
                   (case k of Name n \<Rightarrow> map_of (importedBindings e) n \<noteq> None | _ \<Rightarrow> False) \<or>
                   d_value d = None \<or> d_value d = Some Undefined,
                   setRawView e vw ob')
         else if \<not> isCalledFromStrictCode frames then Inr (False, e)
         else if has_own namespace k then Inl (ERR_NS_REDEFINITION (eid e))
         else Inl (ERR_NS_DEFINITION (eid e)))"

definition immutable_deleteProperty ::
  "frame list \<Rightarrow> entry \<Rightarrow> view \<Rightarrow> key \<Rightarrow> error + (bool \<times> entry)"
where
  "immutable_deleteProperty frames e vw k =
     (case obj_delete (rawView e vw) k of
        (True, ob') \<Rightarrow> Inr (True, setRawView e vw ob')
      | (False, _) \<Rightarrow>
          (if \<not> isCalledFromStrictCode frames then Inr (False, e)
           else Inl (ERR_NS_DELETION (eid e))))"

definition immutable_set ::
  "frame list \<Rightarrow> entry \<Rightarrow> view \<Rightarrow> key \<Rightarrow> error + (bool \<times> entry)"
where
  "immutable_set frames e vw k =
     (if \<not> isCalledFromStrictCode frames then Inr (False, e)
      else if has_own (rawView e vw) k then Inl (ERR_NS_ASSIGNMENT (eid e))
      else Inl (ERR_NS_EXTENSION (eid e)))"

text \<open>
  The \<open>preventExtensions\<close> trap of \<open>assignCommonNamespaceHandlerTraps\<close>, on every
  proxy: refused until the namespace is finalized.
\<close>

definition common_preventExtensions :: "entry \<Rightarrow> view \<Rightarrow> bool \<times> entry" where
  "common_preventExtensions e vw =
     (if namespaceFinalized e then (True, setRawView e vw ((rawView e vw)\<lparr>extensible := False\<rparr>))
      else (False, e))"

section \<open>The entry cache\<close>

text \<open>
  The argument of \<open>Entry.get\<close> and \<open>Entry.set\<close>: a value \<open>isObject\<close> rejects, or a
  module object, with its identity and the properties the constructor reads
  (\<open>exports\<close>, \<open>loaded\<close>, \<open>parent\<close>).
\<close>

datatype jsmod = NotObject val | Module nat val bool jsmod

text \<open>
  What the constructor takes from collaborators that are not among the sources, as
  functions of the module's identity: the \<open>cjs\<close> options of \<open>Package.from(mod)\<close>, the
  name, the extension and the type of the module, and the object
  \<open>toRawModuleNamespaceObject()\<close> makes.
\<close>

record host =
  packageOptions :: "nat \<Rightarrow> cjs_options"
  moduleName :: "nat \<Rightarrow> string"
  moduleExtname :: "nat \<Rightarrow> string"
  moduleType :: "nat \<Rightarrow> entry_type"
  rawNamespace :: jsobj

text \<open>
  \<open>shared.entry.cache\<close> (by the identity of the module), \<open>shared.bridged\<close> (by the
  exports value), the state, and the identity the next \<open>new Entry\<close> gets.
\<close>

record process =
  cache :: "nat \<Rightarrow> nat option"
  bridged :: "val \<Rightarrow> nat option"
  store :: state
  fresh :: nat

text \<open>The fields the constructor initialises, for the entry \<open>i\<close> of the module \<open>r\<close>.\<close>

definition Entry_new :: "host \<Rightarrow> nat \<Rightarrow> nat \<Rightarrow> val \<Rightarrow> bool \<Rightarrow> nat option \<Rightarrow> entry" where
  "Entry_new h i r ex ld par =
     \<lparr>changed = False, loaded_state = LOAD_INCOMPLETE, namespaceFinalized = False,
      ns = [], namespaceProxied = False,
      completeNamespace = rawNamespace h, completeMutableNamespace = rawNamespace h,
      partialNamespace = rawNamespace h, partialMutableNamespace = rawNamespace h,
      builtin = False, circular = False, exports = ex, extname = moduleExtname h r,
      getters = [], eid = i, importedBindings = [], name = moduleName h r,
      options = packageOptions h r, setters = [(''*'', [])], etype = moduleType h r,
      mod_loaded = ld, mod_exports = ex, children = [], eparent = par\<rparr>"

text \<open>\<open>Entry.set(mod, entry)\<close>.\<close>

fun Entry_set :: "process \<Rightarrow> jsmod \<Rightarrow> nat \<Rightarrow> process" where
  "Entry_set pr (NotObject v) i = pr"
| "Entry_set pr (Module r ex ld par) i = pr\<lparr>cache := (cache pr)(r := Some i)\<rparr>"

text \<open>
  \<open>Entry.get(mod)\<close>: the process afterwards and the entry returned (\<open>None\<close> for
  \<open>null\<close>). On a miss the constructor runs, which calls \<open>Entry.get(mod.parent)\<close>.
\<close>

fun Entry_get :: "host \<Rightarrow> process \<Rightarrow> jsmod \<Rightarrow> process \<times> nat option" where
  "Entry_get h pr (NotObject v) = (pr, None)"
| "Entry_get h pr (Module r ex ld par) =
     (case cache pr r of
        None \<Rightarrow>
          (case Entry_get h pr par of
             (pr1, pe) \<Rightarrow>
               (let i = fresh pr1;
                    pr2 = pr1\<lparr>store := put_entry (store pr1) i (Entry_new h i r ex ld pe),
                              fresh := Suc i\<rparr>
                in (Entry_set pr2 (Module r ex ld par) i, Some i)))
      | Some i \<Rightarrow>
          (case (case entries (store pr) i of
                   None \<Rightarrow> None
                 | Some e \<Rightarrow>
                     (if loaded_state e = LOAD_COMPLETED \<and> etype e = TYPE_CJS
                      then (case bridged pr (mod_exports e) of
                              None \<Rightarrow> None
                            | Some j \<Rightarrow> Some (mod_exports e, j))
                      else None)) of
             None \<Rightarrow> (Entry_set pr (Module r ex ld par) i, Some i)
           | Some (exported, j) \<Rightarrow>
               (Entry_set (pr\<lparr>bridged := (bridged pr)(exported := None)\<rparr>) (Module r ex ld par) j,
                Some j)))"

section \<open>Operations on the state\<close>

text \<open>
  The operations of \<open>entry.js\<close> a process applies to its entries, one after another:
  the registration methods, \<open>assignExportsToNamespace\<close>, \<open>finalizeNamespace\<close>,
  \<open>loaded\<close>, \<open>updateBindings\<close>, the traps of the readonly proxies (which exist for
  the kinds \<open>Complete\<close> and \<open>Partial\<close>) and \<open>preventExtensions\<close> on any proxy.
  \<open>UserObject\<close> is user code storing into one of its own objects. The traps of the
  mutable proxies are sequences of these: a store into the exports object, \<open>addGetter\<close>
  and \<open>updateBindings\<close>.
\<close>

datatype operation =
    AddGetter nat string getter
  | AddSetter nat string "string list" setter bool nat
  | AssignExports nat names
  | Finalize nat
  | Loaded nat
  | UpdateBindings nat nat names update_type
  | DefineProperty "frame list" nat view key descriptor
  | DeleteProperty "frame list" nat view key
  | SetProperty "frame list" nat view key
  | PreventExtensions nat view
  | UserObject nat jsobj

definition readonlyView :: "view \<Rightarrow> bool" where
  "readonlyView vw = (vw = Complete \<or> vw = Partial)"

text \<open>The state a result leaves: after a return, or after a throw.\<close>

definition stateOf :: "(error \<times> state) + state \<Rightarrow> state" where
  "stateOf r = (case r of Inl (err, s) \<Rightarrow> s | Inr s \<Rightarrow> s)"

text \<open>The entry a result of \<open>finalizeNamespace\<close> leaves.\<close>

definition entryOf :: "(error \<times> entry) + entry \<Rightarrow> entry" where
  "entryOf r = (case r of Inl (err, e') \<Rightarrow> e' | Inr e' \<Rightarrow> e')"

definition trapState :: "state \<Rightarrow> nat \<Rightarrow> error + (bool \<times> entry) \<Rightarrow> state" where
  "trapState s i r = (case r of Inl err \<Rightarrow> s | Inr (b, e') \<Rightarrow> put_entry s i e')"

text \<open>
  The state after an operation, whether it returned or threw. An operation on an id with
  no entry, a readonly trap on a kind of proxy that has none, and an \<open>updateBindings\<close>
  given too little fuel leave the state as it is.
\<close>

fun exec :: "operation \<Rightarrow> state \<Rightarrow> state" where
  "exec (AddGetter i n g) s =
     (case entries s i of None \<Rightarrow> s | Some e \<Rightarrow> put_entry s i (addGetter e n g))"
| "exec (AddSetter i n locals st hasType p) s = addSetter s i n locals st hasType p"
| "exec (AssignExports i nms) s =
     (case entries s i of
        None \<Rightarrow> s
      | Some e \<Rightarrow> (case assignExportsToNamespace s e nms of
                     Inl err \<Rightarrow> s | Inr e' \<Rightarrow> put_entry s i e'))"
| "exec (Finalize i) s = stateOf (finalizeIn s i)"
| "exec (Loaded i) s = stateOf (loaded s i)"
| "exec (UpdateBindings fuel i nms ut) s =
     (case updateBindings fuel s i nms ut None of
        None \<Rightarrow> s
      | Some (Inl (err, s')) \<Rightarrow> s'
      | Some (Inr (s', seen)) \<Rightarrow> s')"
| "exec (DefineProperty frames i vw k d) s =
     (case entries s i of
        None \<Rightarrow> s
      | Some e \<Rightarrow> if readonlyView vw then trapState s i (immutable_defineProperty frames e vw k d)
                  else s)"
| "exec (DeleteProperty frames i vw k) s =
     (case entries s i of
        None \<Rightarrow> s
      | Some e \<Rightarrow> if readonlyView vw then trapState s i (immutable_deleteProperty frames e vw k)
                  else s)"
| "exec (SetProperty frames i vw k) s =
     (case entries s i of
        None \<Rightarrow> s
      | Some e \<Rightarrow> if readonlyView vw then trapState s i (immutable_set frames e vw k) else s)"
| "exec (PreventExtensions i vw) s =
     (case entries s i of
        None \<Rightarrow> s
      | Some e \<Rightarrow> put_entry s i (snd (common_preventExtensions e vw)))"
| "exec (UserObject r ob) s = s\<lparr>heap := (heap s)(r := Some ob)\<rparr>"

text \<open>A run of operations, first to last.\<close>

definition run :: "operation list \<Rightarrow> state \<Rightarrow> state" where
  "run ops s = fold exec ops s"

section \<open>Invariants of the engine\<close>

text \<open>The own property keys of an object, what \<open>Reflect.ownKeys\<close> lists.\<close>

definition ownKeys :: "jsobj \<Rightarrow> key list" where
  "ownKeys ob = map fst (props ob)"

text \<open>
  A raw namespace object is sealed when it is not extensible and none of its properties
  is configurable. Until it is finalized it is untouched: extensible, and its properties
  with a string key writable, so that every assignment of \<open>finalizeNamespace\<close> is
  accepted.
\<close>

definition sealedObj :: "jsobj \<Rightarrow> bool" where
  "sealedObj ob = (\<not> extensible ob \<and> list_all (\<lambda>(k, p). \<not> configurable p) (props ob))"

definition untouched :: "jsobj \<Rightarrow> bool" where
  "untouched ob =
     (extensible ob \<and>
      list_all (\<lambda>(k, p). case k of Name n \<Rightarrow> writable p | _ \<Rightarrow> True) (props ob))"

text \<open>
  The raw namespace objects of an entry are in order when, once the namespace is
  finalized, \<open>_completeNamespace\<close> is sealed, and \<open>_partialNamespace\<close> too unless the
  entry is an ESM entry, and until then the four objects are untouched.
\<close>

definition viewsInOrder :: "entry \<Rightarrow> bool" where
  "viewsInOrder e =
     (if namespaceFinalized e
      then sealedObj (completeNamespace e) \<and>
           (etype e = TYPE_ESM \<or> sealedObj (partialNamespace e))
      else untouched (completeNamespace e) \<and> untouched (completeMutableNamespace e) \<and>
           untouched (partialNamespace e) \<and> untouched (partialMutableNamespace e))"

text \<open>
  The key set of a view is kept from \<open>e\<close> to \<open>e'\<close>: for the partial readonly view
  this is asked of entries that are not ESM entries only.
\<close>

definition keysKept :: "entry \<Rightarrow> entry \<Rightarrow> bool" where
  "keysKept e e' =
     (ownKeys (completeNamespace e') = ownKeys (completeNamespace e) \<and>
      ownKeys (completeMutableNamespace e') = ownKeys (completeMutableNamespace e) \<and>
      ownKeys (partialMutableNamespace e') = ownKeys (partialMutableNamespace e) \<and>
      (etype e = TYPE_ESM \<or> ownKeys (partialNamespace e') = ownKeys (partialNamespace e)))"

text \<open>
  What every operation keeps of an entry, from \<open>e\<close> before to \<open>e'\<close> after: an imported
  binding that is \<open>true\<close> stays \<open>true\<close>; an entry is an ESM entry after if and only
  if it was before; and raw namespace objects in order stay in order, a finalized
  namespace stays finalized, and its views keep their keys.
\<close>

definition kept :: "entry \<Rightarrow> entry \<Rightarrow> bool" where
  "kept e e' =
     ((\<forall>n. map_of (importedBindings e) n = Some True \<longrightarrow>
           map_of (importedBindings e') n = Some True) \<and>
      (etype e = TYPE_ESM) = (etype e' = TYPE_ESM) \<and>
      (viewsInOrder e \<longrightarrow>
         viewsInOrder e' \<and>
         (namespaceFinalized e \<longrightarrow> namespaceFinalized e' \<and> keysKept e e')))"

text \<open>The state \<open>s'\<close> has the entries of \<open>s\<close>, each kept.\<close>

definition evolves :: "state \<Rightarrow> state \<Rightarrow> bool" where
  "evolves s s' =
     (\<forall>i. case entries s i of
             None \<Rightarrow> entries s' i = None
           | Some e \<Rightarrow> (\<exists>e'. entries s' i = Some e' \<and> kept e e'))"

text \<open>
  What the getter pass and \<open>loaded\<close> do to a state: the entries are kept and the logs
  are as they were. The setter pass does the same but for \<open>trace\<close>.
\<close>

definition follows :: "state \<Rightarrow> state \<Rightarrow> bool" where
  "follows s s' =
     (evolves s s' \<and> trace s' = trace s \<and> bodies s' = bodies s \<and> spreads s' = spreads s)"

definition followsPass :: "state \<Rightarrow> state \<Rightarrow> bool" where
  "followsPass s s' = (evolves s s' \<and> bodies s' = bodies s \<and> spreads s' = spreads s)"

text \<open>The state a result of \<open>updateBindings\<close> leaves, and the set \<open>seen\<close> as a set.\<close>

definition stateOfUpdate :: "(error \<times> state) + (state \<times> nat set option) \<Rightarrow> state" where
  "stateOfUpdate r = (case r of Inl (err, s) \<Rightarrow> s | Inr (s, seen) \<Rightarrow> s)"

definition seenSet :: "nat set option \<Rightarrow> nat set" where
  "seenSet seen = (case seen of None \<Rightarrow> {} | Some sn \<Rightarrow> sn)"

text \<open>The state a result of the setter pass leaves.\<close>

definition stateOfPass ::
  "(error \<times> state) + (state \<times> (string \<times> nat) list option) \<Rightarrow> state" where
  "stateOfPass r = (case r of Inl (err, s) \<Rightarrow> s | Inr (s, pm) \<Rightarrow> s)"

text \<open>
  What a call of \<open>updateBindings\<close> that started in the state \<open>s\<close> with the set
  \<open>seen\<close> and ended with the result \<open>r\<close> has done: the entries are kept; the entries
  it logged in \<open>spreads\<close> are distinct and were not in \<open>seen\<close>; and when the call
  returned, they are in \<open>seen\<close> now, which has only grown.
\<close>

definition updateOk ::
  "state \<Rightarrow> nat set option \<Rightarrow> (error \<times> state) + (state \<times> nat set option) \<Rightarrow> bool" where
  "updateOk s seen r =
     (evolves s (stateOfUpdate r) \<and>
      (\<exists>new. spreads (stateOfUpdate r) = spreads s @ new \<and> distinct new \<and>
             set new \<inter> seenSet seen = {} \<and>
             (case r of
                Inl x \<Rightarrow> True
              | Inr (s', seen') \<Rightarrow>
                  set new \<subseteq> seenSet seen' \<and> seenSet seen \<subseteq> seenSet seen' \<and>
                  (seen = None \<or> seen' \<noteq> None))))"

text \<open>
  The setters registered under a name (none when \<open>entry.setters\<close> has no list for
  it), and the names the setter pass of \<open>runSetters\<close> goes through: the array given,
  or else the names of \<open>entry.setters\<close>.
\<close>

definition settersOf :: "entry \<Rightarrow> string \<Rightarrow> setter list" where
  "settersOf e n = (case map_of (setters e) n of None \<Rightarrow> [] | Some l \<Rightarrow> l)"

definition passNames :: "entry \<Rightarrow> names \<Rightarrow> string list" where
  "passNames e nms = (case nms of NamesArray xs \<Rightarrow> xs | _ \<Rightarrow> map fst (setters e))"

text \<open>
  The call of the setter \<open>st\<close>, registered under the name \<open>n\<close> of the entry \<open>i\<close>, that
  a setter pass of kind \<open>ut\<close> makes if it makes one, when the pass starts in the state
  \<open>s\<close> with the entry as \<open>e\<close>: the value is what the name resolves to for the
  importer, and the flags are those of the entry.
\<close>

definition callOf :: "state \<Rightarrow> entry \<Rightarrow> nat \<Rightarrow> string \<Rightarrow> update_type \<Rightarrow> setter \<Rightarrow> call" where
  "callOf s e i n ut st =
     \<lparr>c_setter = st,
      c_value = resolveExport (etype e = TYPE_ESM) s e n (the (entries s (parent st))),
      c_exporter = i, c_name = n,
      c_loaded = (loaded_state e = LOAD_COMPLETED),
      c_nsChanged = changed e,
      c_kind = ut\<rparr>"

text \<open>
  A call of a setter has a reason when the setter is not a dynamic-import setter and the
  value resolved differs from the \<open>last\<close> it had; or it is a dynamic-import setter and
  the exporter has completed loading; or it is an export-from setter; or it is a
  namespace setter and the flag \<open>_changed\<close> of the exporter was set; or the kind of the
  update is \<open>init\<close>.
\<close>

definition calledForReason :: "call \<Rightarrow> bool" where
  "calledForReason c =
     (stype (c_setter c) \<noteq> SETTER_TYPE_DYNAMIC_IMPORT \<and> last (c_setter c) \<noteq> c_value c \<or>
      stype (c_setter c) = SETTER_TYPE_DYNAMIC_IMPORT \<and> c_loaded c \<or>
      stype (c_setter c) = SETTER_TYPE_EXPORT_FROM \<or>
      stype (c_setter c) = SETTER_TYPE_NAMESPACE \<and> c_nsChanged c \<or>
      c_kind c = UPDATE_TYPE_INIT)"

text \<open>
  A call logged in an update of kind \<open>ut\<close> that started at the entry \<open>i\<close> is in order
  when it has a reason, and its kind is \<open>init\<close> only if the update is of kind \<open>init\<close>
  and the call was made by the setter pass of the entry \<open>i\<close>. \<open>tracedOk\<close> says that
  from \<open>s\<close> to \<open>s'\<close> only such calls were logged.
\<close>

definition callOk :: "update_type \<Rightarrow> nat \<Rightarrow> call \<Rightarrow> bool" where
  "callOk ut i c =
     (calledForReason c \<and>
      (c_kind c = UPDATE_TYPE_INIT \<longrightarrow> ut = UPDATE_TYPE_INIT \<and> c_exporter c = i))"

definition tracedOk :: "update_type \<Rightarrow> nat \<Rightarrow> state \<Rightarrow> state \<Rightarrow> bool" where
  "tracedOk ut i s s' = (\<exists>new. trace s' = trace s @ new \<and> list_all (callOk ut i) new)"

text \<open>
  From \<open>s\<close> to \<open>s'\<close> the objects are as they were and the entries differ at most in
  their imported bindings and in the setter lists of the entry \<open>i\<close> under the names in
  \<open>N\<close>: what the setter pass of the entry \<open>i\<close> for these names changes.
\<close>

definition settersPass :: "nat \<Rightarrow> string set \<Rightarrow> state \<Rightarrow> state \<Rightarrow> bool" where
  "settersPass i N s s' =
     (heap s' = heap s \<and>
      (\<forall>j. case entries s j of
              None \<Rightarrow> entries s' j = None
            | Some e \<Rightarrow>
                (\<exists>ib l. entries s' j = Some (e\<lparr>importedBindings := ib, setters := l\<rparr>) \<and>
                        (\<forall>m. j \<noteq> i \<or> m \<notin> N \<longrightarrow> map_of l m = map_of (setters e) m))))"

section \<open>Example states\<close>

definition emptyObject :: jsobj where
  "emptyObject =
     \<lparr>props = [], extensible = True, protoHas = (\<lambda>n. False), protoEnumerable = (\<lambda>n. False)\<rparr>"

definition exampleHost :: host where
  "exampleHost =
     \<lparr>packageOptions = (\<lambda>r. \<lparr>interop = True, namedExports = False, mutableNamespace = False\<rparr>),
      moduleName = (\<lambda>r. if r = 0 then ''a'' else if r = 1 then ''b'' else ''c''),
      moduleExtname = (\<lambda>r. ''.js''),
      moduleType = (\<lambda>r. TYPE_ESM),
      rawNamespace = emptyObject\<rparr>"

text \<open>The entry the constructor makes for a loaded ESM module \<open>i\<close> with exports object \<open>i\<close>.\<close>

definition exampleEntry :: "nat \<Rightarrow> entry" where
  "exampleEntry i = Entry_new exampleHost i i (Obj i) True None"

text \<open>A static-import setter as \<open>addSetter\<close> leaves it, of the importer \<open>p\<close>.\<close>

definition exampleSetter :: "nat \<Rightarrow> nat \<Rightarrow> string \<Rightarrow> setter" where
  "exampleSetter k p n =
     \<lparr>sid = k, last = INITIAL_VALUE, localNames = [n], parent = p,
      stype = SETTER_TYPE_STATIC_IMPORT, result = False\<rparr>"

text \<open>A state of three entries, \<open>0\<close>, \<open>1\<close> and \<open>2\<close>, with an empty exports object each.\<close>

definition exampleState :: "entry \<Rightarrow> entry \<Rightarrow> entry \<Rightarrow> state" where
  "exampleState a b c =
     \<lparr>entries = (\<lambda>i. if i = 0 then Some a else if i = 1 then Some b
                     else if i = 2 then Some c else None),
      heap = (\<lambda>r. if r < 3 then Some emptyObject else None),
      trace = [], bodies = [], spreads = []\<rparr>"

text \<open>
  A chain of importers: the entry \<open>0\<close>, which is part of a cycle, exports \<open>x\<close> to
  the entry \<open>1\<close>, which exports \<open>y\<close> to the entry \<open>2\<close>.
\<close>

definition chainEntry0 :: entry where
  "chainEntry0 =
     (exampleEntry 0)\<lparr>circular := True,
                       getters := [(''x'', Returns (Num 1))],
                       setters := [(''*'', []), (''x'', [exampleSetter 0 1 ''x''])]\<rparr>"

definition chainState :: state where
  "chainState =
     exampleState chainEntry0
       ((exampleEntry 1)\<lparr>getters := [(''y'', Returns (Num 2))],
                          setters := [(''*'', []), (''y'', [exampleSetter 1 2 ''y''])]\<rparr>)
       (exampleEntry 2)"

text \<open>
  The state the getter and setter passes of a \<open>default\<close> update of the entry \<open>0\<close>
  of the chain leave.
\<close>

definition chainPass :: state where
  "chainPass =
     fst (projr (runSetters
       (projr (runGetters
          ((put_entry chainState 0 (chainEntry0\<lparr>changed := False\<rparr>))
             \<lparr>bodies := bodies chainState @ [0]\<rparr>) 0 NamesUndefined))
       0 NamesUndefined True UPDATE_TYPE_DEFAULT))"

text \<open>
  A process in which the module \<open>0\<close> is cached with the entry \<open>0\<close>, the entries
  \<open>0\<close> and \<open>1\<close> are loaded CJS entries, and \<open>shared.bridged\<close> maps the exports of
  the entry \<open>0\<close> to the entry \<open>1\<close> and those of the entry \<open>1\<close> to the entry \<open>2\<close>.
\<close>

definition bridgedProcess :: process where
  "bridgedProcess =
     \<lparr>cache = (\<lambda>r. if r = 0 then Some 0 else None),
      bridged = (\<lambda>v. if v = Obj 0 then Some 1 else if v = Obj 1 then Some 2 else None),
      store = exampleState
                ((exampleEntry 0)\<lparr>etype := TYPE_CJS, loaded_state := LOAD_COMPLETED\<rparr>)
                ((exampleEntry 1)\<lparr>etype := TYPE_CJS, loaded_state := LOAD_COMPLETED\<rparr>)
                (exampleEntry 2),
      fresh = 3\<rparr>"

text \<open>A process with nothing cached, and two module objects, the second the parent of the first.\<close>

definition emptyProcess :: process where
  "emptyProcess =
     \<lparr>cache = (\<lambda>r. None), bridged = (\<lambda>v. None),
      store = \<lparr>entries = (\<lambda>i. None), heap = (\<lambda>r. None), trace = [], bodies = [],
               spreads = []\<rparr>,
      fresh = 0\<rparr>"

definition exampleModule :: jsmod where
  "exampleModule = Module 0 (Obj 0) False (Module 1 (Obj 1) True (NotObject Null))"





text \<open>
  A state whose entry \<open>0\<close>, of the given type, has finished executing and has an
  exports object with the single property \<open>default\<close>, of value \<open>5\<close>.
\<close>

definition defaultObject :: jsobj where
  "defaultObject =
     emptyObject\<lparr>props := [(Name ''default'',
        \<lparr>pvalue = Num 5, writable = True, enumerable = True, configurable = True\<rparr>)]\<rparr>"

definition defaultOnlyState :: "entry_type \<Rightarrow> state" where
  "defaultOnlyState t =
     (exampleState ((exampleEntry 0)\<lparr>etype := t, namespaceProxied := (t = TYPE_CJS)\<rparr>)
        (exampleEntry 1) (exampleEntry 2))
     \<lparr>heap := (\<lambda>r. if r = 0 then Some defaultObject else None)\<rparr>"

text \<open>
  A diamond of importers: the entry \<open>0\<close> exports \<open>x\<close> to the entries \<open>1\<close> and
  \<open>2\<close>, and the entry \<open>2\<close> exports \<open>y\<close> to the entry \<open>1\<close>. No entry is part of
  a cycle.
\<close>

definition diamondState :: state where
  "diamondState =
     exampleState
       ((exampleEntry 0)\<lparr>getters := [(''x'', Returns (Num 1))],
                          setters := [(''*'', []),
                                      (''x'', [exampleSetter 0 2 ''x'', exampleSetter 1 1 ''x''])]\<rparr>)
       (exampleEntry 1)
       ((exampleEntry 2)\<lparr>getters := [(''y'', Returns (Num 2))],
                          setters := [(''*'', []), (''y'', [exampleSetter 2 1 ''y''])]\<rparr>)"


text \<open>
  A state in which the export \<open>foo\<close> of the entry \<open>0\<close> is an export-star conflict
  (its getter returns \<open>ERROR_STAR\<close>) and \<open>bar\<close> is \<open>3\<close>; the given setters import
  \<open>foo\<close>.
\<close>

definition conflictEntry :: "setter list \<Rightarrow> entry" where
  "conflictEntry l =
     (exampleEntry 0)\<lparr>getters := [(''foo'', Returns ERROR_STAR), (''bar'', Returns (Num 3))],
                       setters := [(''*'', []), (''foo'', l)]\<rparr>"

definition conflictState :: "setter list \<Rightarrow> state" where
  "conflictState l = exampleState (conflictEntry l) (exampleEntry 1) (exampleEntry 2)"

text \<open>
  A state whose entry \<open>0\<close> exports \<open>x\<close>, of value \<open>1\<close>, to the entry \<open>1\<close> through
  one setter of the given type.
\<close>

definition oneSetterState :: "setter_type \<Rightarrow> state" where
  "oneSetterState t =
     exampleState
       ((exampleEntry 0)\<lparr>getters := [(''x'', Returns (Num 1))],
                          setters := [(''*'', []),
                                      (''x'', [(exampleSetter 0 1 ''x'')\<lparr>stype := t\<rparr>])]\<rparr>)
       (exampleEntry 1) (exampleEntry 2)"

text \<open>
  A state whose entry \<open>0\<close> exports \<open>x\<close>, of value \<open>1\<close>, to the entry \<open>1\<close> through
  a static-import setter and to the entry \<open>2\<close> through an export-from setter,
  registered in this order; the state after a \<open>default\<close> update of the entry \<open>0\<close>;
  and the state the getter pass of a second such update leaves.
\<close>

definition twoSetterState :: state where
  "twoSetterState =
     exampleState
       ((exampleEntry 0)\<lparr>getters := [(''x'', Returns (Num 1))],
                          setters := [(''*'', []),
                                      (''x'', [exampleSetter 0 1 ''x'',
                                               (exampleSetter 1 2 ''x'')
                                                 \<lparr>stype := SETTER_TYPE_EXPORT_FROM\<rparr>])]\<rparr>)
       (exampleEntry 1) (exampleEntry 2)"

definition twoSetterAfter :: state where
  "twoSetterAfter = run [UpdateBindings 3 0 NamesUndefined UPDATE_TYPE_DEFAULT] twoSetterState"

definition twoSetterGetters :: state where
  "twoSetterGetters =
     projr (runGetters
              ((put_entry twoSetterAfter 0 ((the (entries twoSetterAfter 0))\<lparr>changed := False\<rparr>))
                 \<lparr>bodies := bodies twoSetterAfter @ [0]\<rparr>) 0 NamesUndefined)"

section \<open>Properties\<close>

subsection \<open>Auxiliary facts\<close>

lemma stateOf_simps:
  "stateOf (Inr s) = s" "stateOf (Inl (err, s)) = s"
  by (simp_all add: stateOf_def)

lemma sum_Inr_projr: "\<not> isl x \<Longrightarrow> x = Inr (projr x)"
  by (cases x) auto

lemma callback_False: "callback False st s pm = (s', pm') \<Longrightarrow> pm' = pm"
  by (auto simp: callback_def Let_def split: option.splits)

lemma runSetterStep_False:
  "runSetterStep k s i n a b c False ut pm = Inr (s', pm') \<Longrightarrow> pm' = pm"
  unfolding runSetterStep_def fireSetter_def Let_def
  by (auto split: option.splits if_splits dest: callback_False)

lemma runSetterLoop_False:
  "runSetterLoop k s i n a b c False ut pm = Inr (s', pm') \<Longrightarrow> pm' = pm"
proof (induction k arbitrary: s pm)
  case 0
  then show ?case by simp
next
  case (Suc k)
  then show ?case
    by (auto split: sum.splits dest: runSetterStep_False)
qed

lemma runSetter_False:
  "runSetter s i n False ut pm = Inr (s', pm') \<Longrightarrow> pm' = pm"
  by (auto simp: runSetter_def split: option.splits dest: runSetterLoop_False)

lemma runSetterList_False:
  "runSetterList s i xs False ut pm = Inr (s', pm') \<Longrightarrow> pm' = pm"
proof (induction xs arbitrary: s pm)
  case Nil
  then show ?case by simp
next
  case (Cons n xs)
  then show ?case
    by (auto split: sum.splits dest: runSetter_False)
qed

lemma runSetters_False:
  "runSetters s i nms False ut = Inr (s', pm') \<Longrightarrow> pm' = None"
  by (auto simp: runSetters_def split: option.splits names.splits dest: runSetterList_False)

subsection \<open>Export resolution\<close>

text \<open>
  C5 (amended). The whole raw exported value is the resolved value of \<open>default\<close> when
  the exporter is not an ESM entry (it is of dynamic-object, pseudo or binary style) and
  named exports are off for the importer, which they are when the importer's
  configuration has them off or the importer is an \<open>.mjs\<close> file. Otherwise, for a name
  other than \<open>*\<close>, the result is \<open>ERROR_GETTER\<close> when the exporter has no getter for
  the name, and otherwise what the getter returns, with \<open>ERROR_GETTER\<close> in place of a
  throw.
\<close>

theorem getExportByName_policy:
  "(etype E \<noteq> TYPE_ESM \<and> (extname I = ''.mjs'' \<or> \<not> namedExports (options I)) \<and> nm = ''default''
      \<longrightarrow> getExportByName s E nm I = exports E) \<and>
   (\<not> (etype E \<noteq> TYPE_ESM \<and> (extname I = ''.mjs'' \<or> \<not> namedExports (options I)) \<and> nm = ''default'')
      \<and> nm \<noteq> ''*''
      \<longrightarrow> getExportByName s E nm I =
            (case map_of (getters E) nm of
               None \<Rightarrow> ERROR_GETTER
             | Some g \<Rightarrow> (case callGetter s E g of Inl x \<Rightarrow> ERROR_GETTER | Inr v \<Rightarrow> v)))"
  by (auto simp: getExportByName_def tryGetter_def Let_def split: option.splits sum.splits)

text \<open>
  A CJS exporter read by an importer with named exports off; then three reads of a name
  \<open>x\<close> of an ESM exporter: its getter throws, returns \<open>7\<close>, is absent.
\<close>

theorem getExportByName_policy_witness:
  "getExportByName (exampleState (exampleEntry 0) (exampleEntry 1) (exampleEntry 2))
     ((exampleEntry 0)\<lparr>etype := TYPE_CJS\<rparr>) ''default'' (exampleEntry 1) = Obj 0 \<and>
   getExportByName (exampleState (exampleEntry 0) (exampleEntry 1) (exampleEntry 2))
     ((exampleEntry 0)\<lparr>getters := [(''x'', Throws)]\<rparr>) ''x'' (exampleEntry 1) = ERROR_GETTER \<and>
   getExportByName (exampleState (exampleEntry 0) (exampleEntry 1) (exampleEntry 2))
     ((exampleEntry 0)\<lparr>getters := [(''x'', Returns (Num 7))]\<rparr>) ''x'' (exampleEntry 1) = Num 7 \<and>
   getExportByName (exampleState (exampleEntry 0) (exampleEntry 1) (exampleEntry 2))
     (exampleEntry 0) ''x'' (exampleEntry 1) = ERROR_GETTER"
  using
    getExportByName_policy [of "(exampleEntry 0)\<lparr>etype := TYPE_CJS\<rparr>" "exampleEntry 1"
      "''default''" "exampleState (exampleEntry 0) (exampleEntry 1) (exampleEntry 2)"]
    getExportByName_policy [of "(exampleEntry 0)\<lparr>getters := [(''x'', Throws)]\<rparr>" "exampleEntry 1"
      "''x''" "exampleState (exampleEntry 0) (exampleEntry 1) (exampleEntry 2)"]
    getExportByName_policy [of "(exampleEntry 0)\<lparr>getters := [(''x'', Returns (Num 7))]\<rparr>"
      "exampleEntry 1" "''x''" "exampleState (exampleEntry 0) (exampleEntry 1) (exampleEntry 2)"]
    getExportByName_policy [of "exampleEntry 0" "exampleEntry 1" "''x''"
      "exampleState (exampleEntry 0) (exampleEntry 1) (exampleEntry 2)"]
  by (simp add: exampleEntry_def Entry_new_def exampleHost_def)

text \<open>
  The claim as stated tests the importer's configuration only. An \<open>.mjs\<close> importer
  whose configuration has named exports on still gets the whole exports value of a CJS
  exporter for \<open>default\<close>, not the result of the getter lookup (here no getter,
  \<open>ERROR_GETTER\<close>).
\<close>

theorem getExportByName_mjs_counterexample:
  "\<not> (\<forall>s E nm I.
        \<not> (etype E \<noteq> TYPE_ESM \<and> \<not> namedExports (options I) \<and> nm = ''default'') \<and> nm \<noteq> ''*''
        \<longrightarrow> getExportByName s E nm I =
              (case map_of (getters E) nm of
                 None \<Rightarrow> ERROR_GETTER
               | Some g \<Rightarrow> tryGetter s E g))"
proof
  let ?E = "(exampleEntry 0)\<lparr>etype := TYPE_CJS\<rparr>"
  let ?I = "(exampleEntry 1)\<lparr>extname := ''.mjs'',
              options := \<lparr>interop = True, namedExports = True, mutableNamespace = False\<rparr>\<rparr>"
  let ?s = "exampleState (exampleEntry 0) (exampleEntry 1) (exampleEntry 2)"
  assume a: "\<forall>s E nm I.
        \<not> (etype E \<noteq> TYPE_ESM \<and> \<not> namedExports (options I) \<and> nm = ''default'') \<and> nm \<noteq> ''*''
        \<longrightarrow> getExportByName s E nm I =
              (case map_of (getters E) nm of
                 None \<Rightarrow> ERROR_GETTER
               | Some g \<Rightarrow> tryGetter s E g)"
  have "getExportByName ?s ?E ''default'' ?I = ERROR_GETTER"
    using a [rule_format, of ?E ?I "''default''" ?s]
    by (simp add: exampleEntry_def Entry_new_def exampleHost_def)
  moreover have "getExportByName ?s ?E ''default'' ?I = Obj 0"
    by (simp add: getExportByName_def exampleEntry_def Entry_new_def exampleHost_def)
  ultimately show False by simp
qed

subsection \<open>The entry cache\<close>

lemma Entry_get_cached:
  "Entry_get h pr (Module r ex ld par) = (pr', res) \<Longrightarrow> res \<noteq> None \<and> cache pr' r = res"
proof (cases "cache pr r")
  case None
  then show "Entry_get h pr (Module r ex ld par) = (pr', res) \<Longrightarrow> ?thesis"
    by (auto simp: Let_def split: prod.splits)
next
  case (Some i)
  then show "Entry_get h pr (Module r ex ld par) = (pr', res) \<Longrightarrow> ?thesis"
    apply (cases "entries (store pr) i")
     apply (auto split: option.splits if_splits)
       apply (metis option.simps(3))+
    done
qed

lemma Entry_get_hit:
  assumes "cache pr r = Some i"
    and "\<not> (case entries (store pr) i of
              None \<Rightarrow> False
            | Some e \<Rightarrow> loaded_state e = LOAD_COMPLETED \<and> etype e = TYPE_CJS \<and>
                        bridged pr (mod_exports e) \<noteq> None)"
  shows "Entry_get h pr (Module r ex ld par) = (pr, Some i)"
proof -
  have "pr\<lparr>cache := (cache pr)(r := Some i)\<rparr> = pr"
    using assms(1) by (simp add: fun_upd_idem)
  then show ?thesis
    using assms by (auto split: option.splits)
qed

lemma Entry_get_bridged:
  assumes "cache pr r = Some i" and "entries (store pr) i = Some e"
    and "loaded_state e = LOAD_COMPLETED" and "etype e = TYPE_CJS"
    and "bridged pr (mod_exports e) = Some k"
  shows "Entry_get h pr (Module r ex ld par) =
           (pr\<lparr>bridged := (bridged pr)(mod_exports e := None),
               cache := (cache pr)(r := Some k)\<rparr>, Some k)"
  using assms by simp

text \<open>
  C10 (amended). For a \<open>mod\<close> that is not an object, \<open>Entry.get\<close> returns \<open>null\<close>
  and leaves the process as it is, and \<open>Entry.set\<close> does nothing. For a module object,
  \<open>Entry.get\<close> returns an entry, and the cache holds that entry for the module
  afterwards. A second call on the same module returns the same entry and changes
  nothing, unless the entry the first call returned is a loaded CJS entry whose
  \<open>module.exports\<close> is a key of \<open>shared.bridged\<close>; then the second call returns the
  entry \<open>shared.bridged\<close> holds for it, caches that entry for the module and deletes
  the key from \<open>shared.bridged\<close>.
\<close>

theorem Entry_get_cache:
  "Entry_get h pr (NotObject v) = (pr, None) \<and>
   Entry_set pr (NotObject v) j = pr \<and>
   (\<forall>pr1 res.
      Entry_get h pr (Module r ex ld par) = (pr1, res) \<longrightarrow>
      (\<exists>i. res = Some i \<and> cache pr1 r = Some i \<and>
           (\<not> (case entries (store pr1) i of
                  None \<Rightarrow> False
                | Some e \<Rightarrow> loaded_state e = LOAD_COMPLETED \<and> etype e = TYPE_CJS \<and>
                            bridged pr1 (mod_exports e) \<noteq> None)
            \<longrightarrow> Entry_get h pr1 (Module r ex ld par) = (pr1, Some i)) \<and>
           (\<forall>e k. entries (store pr1) i = Some e \<and> loaded_state e = LOAD_COMPLETED \<and>
                   etype e = TYPE_CJS \<and> bridged pr1 (mod_exports e) = Some k
            \<longrightarrow> Entry_get h pr1 (Module r ex ld par) =
                  (pr1\<lparr>bridged := (bridged pr1)(mod_exports e := None),
                       cache := (cache pr1)(r := Some k)\<rparr>, Some k))))"
proof (intro conjI allI impI)
  fix pr1 res
  assume a: "Entry_get h pr (Module r ex ld par) = (pr1, res)"
  from Entry_get_cached [OF a] obtain i where i: "res = Some i" "cache pr1 r = Some i"
    by auto
  have b: "Entry_get h pr1 (Module r ex ld par) =
                  (pr1\<lparr>bridged := (bridged pr1)(mod_exports e := None),
                       cache := (cache pr1)(r := Some k)\<rparr>, Some k)"
    if "entries (store pr1) i = Some e \<and> loaded_state e = LOAD_COMPLETED \<and>
        etype e = TYPE_CJS \<and> bridged pr1 (mod_exports e) = Some k" for e k
    using that Entry_get_bridged [OF i(2), of e k h ex ld par] by blast
  show "\<exists>i. res = Some i \<and> cache pr1 r = Some i \<and>
           (\<not> (case entries (store pr1) i of
                  None \<Rightarrow> False
                | Some e \<Rightarrow> loaded_state e = LOAD_COMPLETED \<and> etype e = TYPE_CJS \<and>
                            bridged pr1 (mod_exports e) \<noteq> None)
            \<longrightarrow> Entry_get h pr1 (Module r ex ld par) = (pr1, Some i)) \<and>
           (\<forall>e k. entries (store pr1) i = Some e \<and> loaded_state e = LOAD_COMPLETED \<and>
                   etype e = TYPE_CJS \<and> bridged pr1 (mod_exports e) = Some k
            \<longrightarrow> Entry_get h pr1 (Module r ex ld par) =
                  (pr1\<lparr>bridged := (bridged pr1)(mod_exports e := None),
                       cache := (cache pr1)(r := Some k)\<rparr>, Some k))"
    using i Entry_get_hit [of pr1 r i h ex ld par] b by blast
qed simp_all

text \<open>
  A module that is not cached, whose parent is not cached either: the constructor makes
  the entry \<open>0\<close> for the parent and the entry \<open>1\<close> for the module, and a second call
  returns the entry \<open>1\<close> again. And the bridged process, in which the first call on the
  module \<open>0\<close> returns the loaded CJS entry \<open>1\<close>, whose exports \<open>shared.bridged\<close>
  maps to the entry \<open>2\<close>: the second call returns the entry \<open>2\<close>, caches it and
  deletes the key.
\<close>

theorem Entry_get_cache_witness:
  "snd (Entry_get exampleHost emptyProcess exampleModule) = Some 1 \<and>
   cache (fst (Entry_get exampleHost emptyProcess exampleModule)) 0 = Some 1 \<and>
   cache (fst (Entry_get exampleHost emptyProcess exampleModule)) 1 = Some 0 \<and>
   Entry_get exampleHost (fst (Entry_get exampleHost emptyProcess exampleModule)) exampleModule =
     (fst (Entry_get exampleHost emptyProcess exampleModule), Some 1) \<and>
   Entry_get exampleHost
     (fst (Entry_get exampleHost bridgedProcess (Module 0 (Obj 0) True (NotObject Null))))
     (Module 0 (Obj 0) True (NotObject Null)) =
     ((fst (Entry_get exampleHost bridgedProcess (Module 0 (Obj 0) True (NotObject Null))))
        \<lparr>bridged := (bridged (fst (Entry_get exampleHost bridgedProcess
                                    (Module 0 (Obj 0) True (NotObject Null)))))
                      (Obj 1 := None),
         cache := (cache (fst (Entry_get exampleHost bridgedProcess
                                (Module 0 (Obj 0) True (NotObject Null)))))
                    (0 := Some 2)\<rparr>,
      Some 2)"
proof -
  let ?p = "Entry_get exampleHost emptyProcess exampleModule"
  have r: "snd ?p = Some 1" by code_simp
  have c: "cache (fst ?p) 1 = Some 0" by code_simp
  have n: "\<not> (case entries (store (fst ?p)) 1 of
                  None \<Rightarrow> False
                | Some e \<Rightarrow> loaded_state e = LOAD_COMPLETED \<and> etype e = TYPE_CJS \<and>
                            bridged (fst ?p) (mod_exports e) \<noteq> None)"
    by code_simp
  have p: "Entry_get exampleHost emptyProcess
             (Module 0 (Obj 0) False (Module 1 (Obj 1) True (NotObject Null))) = (fst ?p, Some 1)"
    using r by (metis exampleModule_def prod.collapse)
  note T = Entry_get_cache [of exampleHost emptyProcess Null 0 0 "Obj 0" False
      "Module 1 (Obj 1) True (NotObject Null)", THEN conjunct2, THEN conjunct2, rule_format, OF p]
  then obtain i where i: "Some 1 = Some i"
    and t: "\<not> (case entries (store (fst ?p)) i of
                  None \<Rightarrow> False
                | Some e \<Rightarrow> loaded_state e = LOAD_COMPLETED \<and> etype e = TYPE_CJS \<and>
                            bridged (fst ?p) (mod_exports e) \<noteq> None)
            \<longrightarrow> Entry_get exampleHost (fst ?p)
                   (Module 0 (Obj 0) False (Module 1 (Obj 1) True (NotObject Null))) =
                 (fst ?p, Some i)"
    by blast
  from i have "i = 1" by simp
  with t n have first: "Entry_get exampleHost (fst ?p) exampleModule = (fst ?p, Some 1)"
    unfolding exampleModule_def by blast
  have c0: "cache (fst ?p) 0 = Some 1" by code_simp
  let ?m = "Module 0 (Obj 0) True (NotObject Null)"
  let ?q = "Entry_get exampleHost bridgedProcess ?m"
  let ?e1 = "(exampleEntry 1)\<lparr>etype := TYPE_CJS, loaded_state := LOAD_COMPLETED\<rparr>"
  have qr: "snd ?q = Some 1" by code_simp
  then have q: "Entry_get exampleHost bridgedProcess (Module 0 (Obj 0) True (NotObject Null)) =
      (fst ?q, Some 1)"
    by (metis prod.collapse)
  let ?e0 = "(exampleEntry 0)\<lparr>etype := TYPE_CJS, loaded_state := LOAD_COMPLETED\<rparr>"
  have "cache bridgedProcess 0 = Some 0" "entries (store bridgedProcess) 0 = Some ?e0"
    "loaded_state ?e0 = LOAD_COMPLETED" "etype ?e0 = TYPE_CJS"
    "bridged bridgedProcess (mod_exports ?e0) = Some 1"
    by (simp_all add: bridgedProcess_def exampleState_def exampleEntry_def Entry_new_def)
  from Entry_get_bridged [OF this]
  have st: "store (fst ?q) = store bridgedProcess" by simp
  have qe: "entries (store (fst ?q)) 1 = Some ?e1"
    unfolding st by (simp add: bridgedProcess_def exampleState_def)
  have qf: "loaded_state ?e1 = LOAD_COMPLETED" "etype ?e1 = TYPE_CJS" "mod_exports ?e1 = Obj 1"
    by (simp_all add: exampleEntry_def Entry_new_def)
  have qb: "bridged (fst ?q) (Obj 1) = Some 2" by code_simp
  note U = Entry_get_cache [of exampleHost bridgedProcess Null 0 0 "Obj 0" True
      "NotObject Null", THEN conjunct2, THEN conjunct2, rule_format, OF q]
  then obtain k where k: "Some 1 = Some k"
    and u: "\<forall>e j. entries (store (fst ?q)) k = Some e \<and> loaded_state e = LOAD_COMPLETED \<and>
                   etype e = TYPE_CJS \<and> bridged (fst ?q) (mod_exports e) = Some j
            \<longrightarrow> Entry_get exampleHost (fst ?q) ?m =
                  ((fst ?q)\<lparr>bridged := (bridged (fst ?q))(mod_exports e := None),
                       cache := (cache (fst ?q))(0 := Some j)\<rparr>, Some j)"
    by blast
  from k have k1: "k = 1" by simp
  have qb': "bridged (fst ?q) (mod_exports ?e1) = Some 2"
    unfolding qf(3) by (rule qb)
  note u [unfolded k1, rule_format, OF conjI [OF qe conjI [OF qf(1) conjI [OF qf(2) qb']]]]
  then have second: "Entry_get exampleHost (fst ?q) ?m =
      ((fst ?q)\<lparr>bridged := (bridged (fst ?q))(Obj 1 := None),
                cache := (cache (fst ?q))(0 := Some 2)\<rparr>, Some 2)"
    unfolding qf(3) .
  from r c0 c first second show ?thesis by blast
qed

text \<open>
  With the bridged process, two calls in a row on the module \<open>0\<close> return the entry \<open>1\<close>
  and then the entry \<open>2\<close>.
\<close>

theorem Entry_get_bridged_counterexample:
  "snd (Entry_get exampleHost bridgedProcess (Module 0 (Obj 0) True (NotObject Null))) = Some 1 \<and>
   snd (Entry_get exampleHost
          (fst (Entry_get exampleHost bridgedProcess (Module 0 (Obj 0) True (NotObject Null))))
          (Module 0 (Obj 0) True (NotObject Null))) = Some 2"
  by code_simp

subsection \<open>The readonly traps\<close>













subsection \<open>What the registration and finalization steps leave alone\<close>

lemma addGetter_fields:
  "\<exists>g n. addGetter e m x = e\<lparr>getters := g, ns := n\<rparr>"
  unfolding addGetter_def by blast

lemma assign_fold_fields:
  "\<exists>g n. fold (\<lambda>m e'. if P m e' then addGetter e' m (NamespaceGet m) else e') xs e =
         e\<lparr>getters := g, ns := n\<rparr>"
proof (induction xs arbitrary: e)
  case Nil
  have "e = e\<lparr>getters := getters e, ns := ns e\<rparr>" by simp
  then show ?case by (metis fold_simps(1))
next
  case (Cons m xs)
  show ?case
  proof (cases "P m e")
    case True
    from Cons [of "addGetter e m (NamespaceGet m)"] obtain g n where
      "fold (\<lambda>m e'. if P m e' then addGetter e' m (NamespaceGet m) else e') xs
         (addGetter e m (NamespaceGet m)) = (addGetter e m (NamespaceGet m))\<lparr>getters := g, ns := n\<rparr>"
      by blast
    then have "fold (\<lambda>m e'. if P m e' then addGetter e' m (NamespaceGet m) else e') (m # xs) e =
           e\<lparr>getters := g, ns := n\<rparr>"
      using True by (simp add: addGetter_def)
    then show ?thesis by blast
  next
    case False
    with Cons [of e] show ?thesis by simp
  qed
qed

lemma assignExportsToNamespace_fields:
  "assignExportsToNamespace s e nms = Inr e' \<Longrightarrow> \<exists>g n. e' = e\<lparr>getters := g, ns := n\<rparr>"
proof -
  assume a: "assignExportsToNamespace s e nms = Inr e'"
  have triv: "e = e\<lparr>getters := getters e, ns := ns e\<rparr>" by simp
  show ?thesis
  proof (cases "isObjectLike (exports e)")
    case False
    with a have "e' = e" by (simp add: assignExportsToNamespace_def)
    with triv show ?thesis by metis
  next
    case True
    with a show ?thesis
      unfolding assignExportsToNamespace_def Let_def
      using assign_fold_fields
      by (cases nms) (auto simp del: fold_simps)
  qed
qed

lemma assignExportsToNamespace_array:
  "\<exists>e'. assignExportsToNamespace s e (NamesArray xs) = Inr e'"
  by (simp add: assignExportsToNamespace_def Let_def)



lemma finalizePartial_fields:
  "\<exists>pm p. entryOf (finalizePartial s e) = e\<lparr>partialMutableNamespace := pm, partialNamespace := p\<rparr>"
  unfolding finalizePartial_def Let_def entryOf_def
  by (simp split: if_splits) blast

lemma finalizeNamespace_fields:
  "\<exists>f cm c pm p. entryOf (finalizeNamespace s e) =
      e\<lparr>namespaceFinalized := f, completeMutableNamespace := cm, completeNamespace := c,
        partialMutableNamespace := pm, partialNamespace := p\<rparr>"
proof (cases "namespaceFinalized e")
  case True
  have "e = e\<lparr>namespaceFinalized := namespaceFinalized e,
      completeMutableNamespace := completeMutableNamespace e, completeNamespace := completeNamespace e,
      partialMutableNamespace := partialMutableNamespace e, partialNamespace := partialNamespace e\<rparr>"
    by simp
  moreover have "entryOf (finalizeNamespace s e) = e"
    using True by (simp add: finalizeNamespace_def entryOf_def)
  ultimately show ?thesis by metis
next
  case False
  let ?r = "assignInitial (completeMutableNamespace e) (completeNamespace e) (sort (map fst (ns e)))"
  let ?e3 = "e\<lparr>namespaceFinalized := True, completeMutableNamespace := fst (fst ?r),
               completeNamespace := obj_seal (snd (fst ?r))\<rparr>"
  from finalizePartial_fields [of s ?e3] obtain pm p where
    fp: "entryOf (finalizePartial s ?e3) = ?e3\<lparr>partialMutableNamespace := pm, partialNamespace := p\<rparr>"
    by blast
  have "entryOf (finalizeNamespace s e) =
      e\<lparr>namespaceFinalized := True, completeMutableNamespace := fst (fst ?r),
        completeNamespace := (if snd ?r then obj_seal (snd (fst ?r)) else snd (fst ?r)),
        partialMutableNamespace := (if snd ?r \<and> etype e \<noteq> TYPE_ESM then pm else partialMutableNamespace e),
        partialNamespace := (if snd ?r \<and> etype e \<noteq> TYPE_ESM then p else partialNamespace e)\<rparr>"
    using False fp by (simp add: finalizeNamespace_def Let_def) (simp add: entryOf_def)
  then show ?thesis by blast
qed


lemma finalizeIn_state:
  "entries s i = Some e \<Longrightarrow>
   stateOf (finalizeIn s i) = put_entry s i (entryOf (finalizeNamespace s e))"
  by (auto simp: finalizeIn_def stateOf_def entryOf_def split: sum.splits)

subsection \<open>Default collapse\<close>

lemma interopStep_mod_exports:
  "\<exists>e'. entries (stateOf (interopStep s i e names)) i = Some e' \<and>
        (\<exists>x. e' = e\<lparr>mod_exports := x\<rparr>) \<and>
        (\<not> (interop (options e) \<and> extname e \<noteq> ''.mjs'' \<and> names = [''default'']) \<longrightarrow> e' = e)"
proof -
  have t: "e = e\<lparr>mod_exports := mod_exports e\<rparr>" by simp
  show ?thesis
    unfolding interopStep_def
    apply (simp add: stateOf_simps put_entry_def split: sum.splits option.splits)
    apply (intro conjI impI allI)
    apply (auto simp: stateOf_simps put_entry_def intro: t)
    done
qed

lemma loaded_collapses:
  assumes "entries s i = Some e" and "loaded_state e = LOAD_INCOMPLETE" and "mod_loaded e"
    and "childrenLoaded s e" and "etype e = TYPE_ESM \<or> etype e = TYPE_WASM"
    and "interop (options e)" and "extname e \<noteq> ''.mjs''"
    and "object_of s (exports e) = Some ob" and "obj_keys ob = [''default'']"
  shows "\<exists>e'. entries (stateOf (loaded s i)) i = Some e' \<and>
              mod_exports e' = obj_get ob (Name ''default'') \<and>
              loaded_state e' = LOAD_COMPLETED"
proof -
  let ?e1 = "e\<lparr>loaded_state := LOAD_COMPLETED, namespaceProxied := False\<rparr>"
  have names: "getExportsObjectKeys s e (exports e) = [''default'']"
    using assms(5,8,9) by (auto simp: getExportsObjectKeys_def)
  obtain e2 where e2: "assignExportsToNamespace s ?e1 (NamesArray [''default'']) = Inr e2"
    using assignExportsToNamespace_array by blast
  from assignExportsToNamespace_fields [OF e2] obtain g n where
    e2f: "e2 = ?e1\<lparr>getters := g, ns := n\<rparr>" by blast
  have rd: "read_prop s (exports e) ''default'' = Inr (obj_get ob (Name ''default''))"
    using assms(8) by (auto simp: read_prop_def object_of_def deref_def split: option.splits)
  let ?e3 = "e2\<lparr>mod_exports := obj_get ob (Name ''default'')\<rparr>"
  have step: "interopStep s i e2 [''default''] = Inr (put_entry s i ?e3)"
    using assms(6,7) rd by (simp add: interopStep_def e2f)
  have ld: "loaded s i = finalizeIn (put_entry s i ?e3) i"
    using assms(1-5) names e2 step by (auto simp: loaded_def Let_def)
  have ent: "entries (put_entry s i ?e3) i = Some ?e3"
    by (simp add: put_entry_def)
  from finalizeNamespace_fields [of "put_entry s i ?e3" ?e3] obtain f cm c pm p where
    fin: "entryOf (finalizeNamespace (put_entry s i ?e3) ?e3) =
      ?e3\<lparr>namespaceFinalized := f, completeMutableNamespace := cm, completeNamespace := c,
        partialMutableNamespace := pm, partialNamespace := p\<rparr>"
    by blast
  show ?thesis
    unfolding ld finalizeIn_state [OF ent] fin
    by (simp add: put_entry_def e2f)
qed

lemma loaded_unchanged:
  assumes "entries s i = Some e"
    and "\<not> (loaded_state e = LOAD_INCOMPLETE \<and> mod_loaded e \<and> childrenLoaded s e \<and>
            (etype e = TYPE_ESM \<or> etype e = TYPE_WASM) \<and> interop (options e) \<and>
            extname e \<noteq> ''.mjs'' \<and> getExportsObjectKeys s e (exports e) = [''default''])"
  shows "\<exists>e'. entries (stateOf (loaded s i)) i = Some e' \<and> mod_exports e' = mod_exports e"
proof (cases "loaded_state e = LOAD_INCOMPLETE \<and> mod_loaded e \<and> childrenLoaded s e")
  case False
  with assms(1) show ?thesis by (auto simp: loaded_def stateOf_simps)
next
  case run: True
  show ?thesis
  proof (cases "etype e = TYPE_ESM \<or> etype e = TYPE_WASM")
    case True
    let ?names = "getExportsObjectKeys s e (exports e)"
    let ?e1 = "e\<lparr>loaded_state := LOAD_COMPLETED, namespaceProxied := False\<rparr>"
    obtain e2 where e2: "assignExportsToNamespace s ?e1 (NamesArray ?names) = Inr e2"
      using assignExportsToNamespace_array by blast
    from assignExportsToNamespace_fields [OF e2] obtain g n where
      e2f: "e2 = ?e1\<lparr>getters := g, ns := n\<rparr>" by blast
    have nc: "\<not> (interop (options e2) \<and> extname e2 \<noteq> ''.mjs'' \<and> ?names = [''default''])"
      using assms(2) run True by (simp add: e2f)
    from interopStep_mod_exports [of s i e2 ?names] nc
    have st: "entries (stateOf (interopStep s i e2 ?names)) i = Some e2" by auto
    show ?thesis
    proof (cases "interopStep s i e2 ?names")
      case (Inl x)
      obtain err s' where x: "x = (err, s')" by (cases x)
      have "loaded s i = Inl (err, s')"
        using assms(1) run True e2 Inl x by (simp add: loaded_def Let_def)
      with st Inl x show ?thesis by (simp add: stateOf_simps e2f)
    next
      case (Inr s')
      have ld: "loaded s i = finalizeIn s' i"
        using assms(1) run True e2 Inr by (simp add: loaded_def Let_def)
      from st Inr have ent: "entries s' i = Some e2" by (simp add: stateOf_simps)
      from finalizeNamespace_fields [of s' e2] obtain f cm c pm p where
        fin: "entryOf (finalizeNamespace s' e2) =
          e2\<lparr>namespaceFinalized := f, completeMutableNamespace := cm, completeNamespace := c,
            partialMutableNamespace := pm, partialNamespace := p\<rparr>"
        by blast
      show ?thesis
        unfolding ld finalizeIn_state [OF ent] fin
        by (simp add: put_entry_def e2f)
    qed
  next
    case False
    let ?exported = "mod_exports e"
    let ?names = "getExportsObjectKeys s e ?exported"
    let ?e1 = "e\<lparr>loaded_state := LOAD_COMPLETED\<rparr>"
    let ?esModule = "(case read_prop s ?exported ''__esModule'' of
                                Inl _ \<Rightarrow> False | Inr v \<Rightarrow> truthy v)"
    let ?e2 = "(if ?exported \<noteq> Null \<and> ?exported \<noteq> Undefined \<and> ?esModule \<and>
                           etype ?e1 = TYPE_CJS \<and> interop (options ?e1)
                        then ?e1\<lparr>namespaceProxied := False, etype := TYPE_PSEUDO\<rparr> else ?e1)"
    let ?e3 = "(if etype ?e2 = TYPE_CJS \<and> map_of (getters ?e2) ''default'' = None
                        then addGetter ?e2 ''default'' (NamespaceGet ''default'') else ?e2)"
    let ?e4 = "?e3\<lparr>exports := (if etype ?e3 = TYPE_CJS then proxyExports i ?e3
                                        else ?exported)\<rparr>"
    have m4: "mod_exports ?e4 = mod_exports e" by (simp add: addGetter_def)
    obtain e5 where e5: "assignExportsToNamespace s ?e4 (NamesArray ?names) = Inr e5"
      using assignExportsToNamespace_array by blast
    from assignExportsToNamespace_fields [OF e5] obtain g n where
      e5f: "e5 = ?e4\<lparr>getters := g, ns := n\<rparr>" by blast
    have m5: "mod_exports e5 = mod_exports e" unfolding e5f using m4 by simp
    have ld: "loaded s i = finalizeIn (put_entry s i e5) i"
      using assms(1) run False e5 by (simp add: loaded_def Let_def)
    have ent: "entries (put_entry s i e5) i = Some e5" by (simp add: put_entry_def)
    from finalizeNamespace_fields [of "put_entry s i e5" e5] obtain f cm c pm p where
      fin: "entryOf (finalizeNamespace (put_entry s i e5) e5) =
        e5\<lparr>namespaceFinalized := f, completeMutableNamespace := cm, completeNamespace := c,
          partialMutableNamespace := pm, partialNamespace := p\<rparr>"
      by blast
    show ?thesis
      unfolding ld finalizeIn_state [OF ent] fin
      using m5 by (simp add: put_entry_def)
  qed
qed

text \<open>
  C8 (amended). An ESM or WASM entry that has finished executing, whose children are
  loaded, whose only visible export is \<open>default\<close>, with CJS interop enabled and an
  extension other than \<open>.mjs\<close>: \<open>loaded()\<close> makes \<open>module.exports\<close> the value of that
  default export itself. In every other case \<open>loaded()\<close> leaves \<open>module.exports\<close> as it
  was, whether it returns or throws; so the \<open>module.exports\<close> of an entry that is
  neither an ESM nor a WASM entry, a dynamic module among them, is never collapsed.
\<close>

theorem loaded_default_collapse:
  assumes "entries s i = Some e"
  shows "(loaded_state e = LOAD_INCOMPLETE \<and> mod_loaded e \<and> childrenLoaded s e \<and>
          (etype e = TYPE_ESM \<or> etype e = TYPE_WASM) \<and> interop (options e) \<and>
          extname e \<noteq> ''.mjs'' \<and>
          object_of s (exports e) = Some ob \<and> obj_keys ob = [''default''] \<longrightarrow>
          (\<exists>e'. entries (stateOf (loaded s i)) i = Some e' \<and>
                mod_exports e' = obj_get ob (Name ''default'') \<and>
                loaded_state e' = LOAD_COMPLETED)) \<and>
         (\<not> (loaded_state e = LOAD_INCOMPLETE \<and> mod_loaded e \<and> childrenLoaded s e \<and>
             (etype e = TYPE_ESM \<or> etype e = TYPE_WASM) \<and> interop (options e) \<and>
             extname e \<noteq> ''.mjs'' \<and>
             (\<exists>ob'. object_of s (exports e) = Some ob' \<and> obj_keys ob' = [''default''])) \<longrightarrow>
          (\<exists>e'. entries (stateOf (loaded s i)) i = Some e' \<and> mod_exports e' = mod_exports e)) \<and>
         (etype e \<noteq> TYPE_ESM \<and> etype e \<noteq> TYPE_WASM \<longrightarrow>
          (\<exists>e'. entries (stateOf (loaded s i)) i = Some e' \<and> mod_exports e' = mod_exports e))"
proof (intro conjI impI)
  assume "loaded_state e = LOAD_INCOMPLETE \<and> mod_loaded e \<and> childrenLoaded s e \<and>
          (etype e = TYPE_ESM \<or> etype e = TYPE_WASM) \<and> interop (options e) \<and>
          extname e \<noteq> ''.mjs'' \<and>
          object_of s (exports e) = Some ob \<and> obj_keys ob = [''default'']"
  then show "\<exists>e'. entries (stateOf (loaded s i)) i = Some e' \<and>
                mod_exports e' = obj_get ob (Name ''default'') \<and>
                loaded_state e' = LOAD_COMPLETED"
    using loaded_collapses [OF assms] by blast
next
  assume n: "\<not> (loaded_state e = LOAD_INCOMPLETE \<and> mod_loaded e \<and> childrenLoaded s e \<and>
             (etype e = TYPE_ESM \<or> etype e = TYPE_WASM) \<and> interop (options e) \<and>
             extname e \<noteq> ''.mjs'' \<and>
             (\<exists>ob'. object_of s (exports e) = Some ob' \<and> obj_keys ob' = [''default'']))"
  have "getExportsObjectKeys s e (exports e) = [''default''] \<Longrightarrow>
        etype e = TYPE_ESM \<or> etype e = TYPE_WASM \<Longrightarrow>
        \<exists>ob'. object_of s (exports e) = Some ob' \<and> obj_keys ob' = [''default'']"
    by (auto simp: getExportsObjectKeys_def split: option.splits)
  with n have "\<not> (loaded_state e = LOAD_INCOMPLETE \<and> mod_loaded e \<and> childrenLoaded s e \<and>
            (etype e = TYPE_ESM \<or> etype e = TYPE_WASM) \<and> interop (options e) \<and>
            extname e \<noteq> ''.mjs'' \<and> getExportsObjectKeys s e (exports e) = [''default''])"
    by blast
  then show "\<exists>e'. entries (stateOf (loaded s i)) i = Some e' \<and> mod_exports e' = mod_exports e"
    by (rule loaded_unchanged [OF assms])
next
  assume "etype e \<noteq> TYPE_ESM \<and> etype e \<noteq> TYPE_WASM"
  then show "\<exists>e'. entries (stateOf (loaded s i)) i = Some e' \<and> mod_exports e' = mod_exports e"
    by (intro loaded_unchanged [OF assms]) simp
qed

text \<open>
  The state whose entry \<open>0\<close> is an ESM entry with the lone export \<open>default\<close>, of
  value \<open>5\<close>: \<open>module.exports\<close> becomes \<open>5\<close>. The same with a CJS entry:
  \<open>module.exports\<close> stays the exports object.
\<close>

theorem loaded_default_collapse_witness:
  "(\<exists>e'. entries (stateOf (loaded (defaultOnlyState TYPE_ESM) 0)) 0 = Some e' \<and>
         mod_exports e' = Num 5 \<and> loaded_state e' = LOAD_COMPLETED) \<and>
   (\<exists>e'. entries (stateOf (loaded (defaultOnlyState TYPE_CJS) 0)) 0 = Some e' \<and>
         mod_exports e' = Obj 0)"
proof -
  let ?s = "defaultOnlyState TYPE_ESM"
  let ?e = "(exampleEntry 0)\<lparr>etype := TYPE_ESM, namespaceProxied := (TYPE_ESM = TYPE_CJS)\<rparr>"
  let ?c = "(exampleEntry 0)\<lparr>etype := TYPE_CJS, namespaceProxied := (TYPE_CJS = TYPE_CJS)\<rparr>"
  have 1: "entries ?s 0 = Some ?e"
    by (simp add: defaultOnlyState_def exampleState_def)
  have 2: "loaded_state ?e = LOAD_INCOMPLETE" "mod_loaded ?e" "interop (options ?e)"
    "extname ?e \<noteq> ''.mjs''" "etype ?e = TYPE_ESM \<or> etype ?e = TYPE_WASM"
    by (simp_all add: exampleEntry_def Entry_new_def exampleHost_def)
  have 3: "childrenLoaded ?s ?e"
    by (simp add: childrenLoaded_def exampleEntry_def Entry_new_def)
  have 4: "object_of ?s (exports ?e) = Some defaultObject"
    by (simp add: object_of_def deref_def defaultOnlyState_def exampleEntry_def Entry_new_def)
  have 5: "obj_keys defaultObject = [''default'']"
    by (simp add: obj_keys_def defaultObject_def emptyObject_def)
  have 6: "obj_get defaultObject (Name ''default'') = Num 5"
    by (simp add: obj_get_def defaultObject_def emptyObject_def)
  have 7: "entries (defaultOnlyState TYPE_CJS) 0 = Some ?c"
    by (simp add: defaultOnlyState_def exampleState_def)
  have 8: "etype ?c \<noteq> TYPE_ESM \<and> etype ?c \<noteq> TYPE_WASM" "mod_exports ?c = Obj 0"
    by (simp_all add: exampleEntry_def Entry_new_def)
  from loaded_default_collapse [OF 1, of defaultObject] 2 3 4 5 6
  have a: "\<exists>e'. entries (stateOf (loaded ?s 0)) 0 = Some e' \<and>
         mod_exports e' = Num 5 \<and> loaded_state e' = LOAD_COMPLETED"
    by simp
  from loaded_default_collapse [OF 7, of defaultObject] 8
  have b: "\<exists>e'. entries (stateOf (loaded (defaultOnlyState TYPE_CJS) 0)) 0 = Some e' \<and>
         mod_exports e' = Obj 0"
    by simp
  from a b show ?thesis by blast
qed

text \<open>
  The same module as a dynamic (CJS) module: \<open>loaded()\<close> leaves \<open>module.exports\<close> the
  exports object itself, whose \<open>default\<close> property is \<open>5\<close>.
\<close>

theorem loaded_cjs_counterexample:
  "getExportsObjectKeys (defaultOnlyState TYPE_CJS)
     ((exampleEntry 0)\<lparr>etype := TYPE_CJS\<rparr>) (Obj 0) = [''default''] \<and>
   read_prop (defaultOnlyState TYPE_CJS) (Obj 0) ''default'' = Inr (Num 5) \<and>
   (case entries (stateOf (loaded (defaultOnlyState TYPE_CJS) 0)) 0 of
      None \<Rightarrow> False
    | Some e' \<Rightarrow> mod_exports e' = Obj 0 \<and> loaded_state e' = LOAD_COMPLETED \<and>
                 etype e' = TYPE_CJS)"
  by code_simp

subsection \<open>Entries are kept\<close>

lemma kept_refl: "kept e e"
  by (simp add: kept_def keysKept_def)

lemma kept_trans: "kept a b \<Longrightarrow> kept b c \<Longrightarrow> kept a c"
  unfolding kept_def keysKept_def by auto

lemma kept_same:
  assumes "importedBindings e' = importedBindings e" and "etype e' = etype e"
    and "namespaceFinalized e' = namespaceFinalized e"
    and "completeNamespace e' = completeNamespace e"
    and "completeMutableNamespace e' = completeMutableNamespace e"
    and "partialNamespace e' = partialNamespace e"
    and "partialMutableNamespace e' = partialMutableNamespace e"
  shows "kept e e'"
  using assms by (simp add: kept_def keysKept_def viewsInOrder_def)

lemma evolves_refl: "evolves s s"
  by (auto simp: evolves_def kept_refl split: option.splits)

lemma evolves_trans: "evolves a b \<Longrightarrow> evolves b c \<Longrightarrow> evolves a c"
  unfolding evolves_def
proof (intro allI)
  fix i
  assume ab: "\<forall>i. case entries a i of None \<Rightarrow> entries b i = None
                  | Some e \<Rightarrow> \<exists>e'. entries b i = Some e' \<and> kept e e'"
    and bc: "\<forall>i. case entries b i of None \<Rightarrow> entries c i = None
                  | Some e \<Rightarrow> \<exists>e'. entries c i = Some e' \<and> kept e e'"
  show "case entries a i of None \<Rightarrow> entries c i = None
        | Some e \<Rightarrow> \<exists>e'. entries c i = Some e' \<and> kept e e'"
  proof (cases "entries a i")
    case None
    with ab [rule_format, of i] bc [rule_format, of i] show ?thesis by simp
  next
    case (Some e)
    with ab [rule_format, of i] obtain e1 where e1: "entries b i = Some e1" "kept e e1"
      by auto
    with bc [rule_format, of i] obtain e2 where "entries c i = Some e2" "kept e1 e2"
      by auto
    with Some e1 show ?thesis by (auto intro: kept_trans)
  qed
qed

lemma evolves_put:
  "entries s i = Some e \<Longrightarrow> kept e e' \<Longrightarrow> evolves s (put_entry s i e')"
  by (auto simp: evolves_def put_entry_def kept_refl split: option.splits)

lemma evolves_entries:
  "entries s' = entries s \<Longrightarrow> evolves s s'"
  by (auto simp: evolves_def kept_refl split: option.splits)

lemma evolves_dom: "evolves s s' \<Longrightarrow> dom (entries s') = dom (entries s)"
proof -
  assume f: "evolves s s'"
  have "\<And>i. (entries s' i = None) = (entries s i = None)"
  proof -
    fix i
    from f have "case entries s i of None \<Rightarrow> entries s' i = None
                 | Some e \<Rightarrow> \<exists>e'. entries s' i = Some e' \<and> kept e e'"
      by (simp add: evolves_def)
    then show "(entries s' i = None) = (entries s i = None)"
      by (cases "entries s i") auto
  qed
  then show ?thesis by (auto simp: dom_def)
qed

lemma evolves_Some:
  "evolves s s' \<Longrightarrow> entries s i = Some e \<Longrightarrow> \<exists>e'. entries s' i = Some e' \<and> kept e e'"
  unfolding evolves_def
proof -
  assume a: "\<forall>i. case entries s i of None \<Rightarrow> entries s' i = None
                  | Some e \<Rightarrow> \<exists>e'. entries s' i = Some e' \<and> kept e e'"
    and b: "entries s i = Some e"
  from a [rule_format, of i] b show ?thesis by simp
qed

lemma follows_refl: "follows s s"
  by (simp add: follows_def evolves_refl)

lemma follows_trans: "follows a b \<Longrightarrow> follows b c \<Longrightarrow> follows a c"
  by (auto simp: follows_def intro: evolves_trans)

lemma follows_put:
  "entries s i = Some e \<Longrightarrow> kept e e' \<Longrightarrow> follows s (put_entry s i e')"
  using evolves_put [of s i e e'] by (simp add: follows_def put_entry_def)

lemma follows_heap: "follows s (s\<lparr>heap := h\<rparr>)"
  by (simp add: follows_def evolves_entries)

lemma follows_evolves: "follows s s' \<Longrightarrow> evolves s s'"
  by (simp add: follows_def)

lemma followsPass_refl: "followsPass s s"
  by (simp add: followsPass_def evolves_refl)

lemma followsPass_trans: "followsPass a b \<Longrightarrow> followsPass b c \<Longrightarrow> followsPass a c"
  by (auto simp: followsPass_def intro: evolves_trans)

lemma followsPass_put_trace:
  "entries s i = Some e \<Longrightarrow> kept e e' \<Longrightarrow> followsPass s ((put_entry s i e')\<lparr>trace := t\<rparr>)"
proof -
  assume a: "entries s i = Some e" "kept e e'"
  have "entries ((put_entry s i e')\<lparr>trace := t\<rparr>) = entries (put_entry s i e')" by simp
  from evolves_trans [OF evolves_put [OF a] evolves_entries [OF this]]
  show ?thesis by (simp add: followsPass_def put_entry_def)
qed

lemma followsPass_put:
  "entries s i = Some e \<Longrightarrow> kept e e' \<Longrightarrow> followsPass s (put_entry s i e')"
  using evolves_put [of s i e e'] by (simp add: followsPass_def put_entry_def)

lemma followsPass_evolves: "followsPass s s' \<Longrightarrow> evolves s s'"
  by (simp add: followsPass_def)

subsection \<open>Raw namespace objects\<close>

lemma list_all_assoc_set:
  "list_all P xs \<Longrightarrow> P (k, v) \<Longrightarrow> list_all P (assoc_set xs k v)"
  by (induction xs) auto

lemma keys_assoc_set:
  "map_of xs k \<noteq> None \<Longrightarrow> map fst (assoc_set xs k v) = map fst xs"
  by (induction xs) auto

lemma untouched_prop:
  "untouched ob \<Longrightarrow> map_of (props ob) (Name n) = Some p \<Longrightarrow> writable p"
  by (auto simp: untouched_def list_all_iff dest!: map_of_SomeD)

lemma untouched_set:
  assumes "untouched ob"
  shows "\<exists>ob'. obj_set ob (Name n) v = Some ob' \<and> untouched ob'"
proof (cases "map_of (props ob) (Name n)")
  case None
  then show ?thesis
    using assms by (simp add: obj_set_def untouched_def)
next
  case (Some p)
  with untouched_prop [OF assms Some] assms show ?thesis
    by (auto simp: obj_set_def untouched_def intro!: list_all_assoc_set)
qed

lemma untouched_assignInitial:
  "untouched a \<Longrightarrow> untouched b \<Longrightarrow>
   snd (assignInitial a b xs) \<and> untouched (fst (fst (assignInitial a b xs))) \<and>
   untouched (snd (fst (assignInitial a b xs)))"
proof (induction xs arbitrary: a b)
  case Nil
  then show ?case by simp
next
  case (Cons n xs)
  from untouched_set [OF Cons.prems(1), of n INITIAL_VALUE] obtain a' where
    a': "obj_set a (Name n) INITIAL_VALUE = Some a'" "untouched a'" by blast
  from untouched_set [OF Cons.prems(2), of n INITIAL_VALUE] obtain b' where
    b': "obj_set b (Name n) INITIAL_VALUE = Some b'" "untouched b'" by blast
  from Cons.IH [OF a'(2) b'(2)] a'(1) b'(1) show ?case by simp
qed

lemma sealedObj_seal: "sealedObj (obj_seal ob)"
  by (auto simp: sealedObj_def obj_seal_def list_all_iff)

lemma untouched_delete: "untouched ob \<Longrightarrow> untouched (snd (obj_delete ob k))"
  by (auto simp: obj_delete_def untouched_def assoc_del_def list_all_iff split: option.splits)

lemma sealedObj_prop:
  "sealedObj ob \<Longrightarrow> map_of (props ob) k = Some p \<Longrightarrow> \<not> configurable p"
  by (auto simp: sealedObj_def list_all_iff dest!: map_of_SomeD)

lemma sealedObj_delete: "sealedObj ob \<Longrightarrow> snd (obj_delete ob k) = ob"
  by (auto simp: obj_delete_def split: option.splits dest: sealedObj_prop)

lemma sealedObj_define:
  assumes "sealedObj ob"
  shows "sealedObj (snd (obj_defineProperty ob k d)) \<and>
         ownKeys (snd (obj_defineProperty ob k d)) = ownKeys ob"
proof (cases "map_of (props ob) k")
  case None
  then show ?thesis
    using assms by (simp add: obj_defineProperty_def sealedObj_def)
next
  case (Some p)
  have nc: "\<not> configurable p" using sealedObj_prop [OF assms Some] .
  show ?thesis
  proof (cases "fst (obj_defineProperty ob k d)")
    case False
    then have "snd (obj_defineProperty ob k d) = ob"
      using Some by (auto simp: obj_defineProperty_def split: if_splits)
    then show ?thesis using assms by simp
  next
    case True
    then have c: "d_configurable d \<noteq> Some True"
      using Some nc by (auto simp: obj_defineProperty_def split: if_splits)
    then have "from_opt (d_configurable d) (configurable p) = False"
      using nc by (cases "d_configurable d") (auto simp: from_opt_def)
    then show ?thesis
      using True Some assms
      by (auto simp: obj_defineProperty_def sealedObj_def ownKeys_def keys_assoc_set
               split: if_splits intro!: list_all_assoc_set)
  qed
qed

lemma sealedObj_preventExtensions:
  "sealedObj ob \<Longrightarrow> sealedObj (ob\<lparr>extensible := False\<rparr>)"
  by (simp add: sealedObj_def)

subsection \<open>Finalization keeps an entry\<close>

lemma finalizePartial_order:
  assumes "untouched (partialNamespace e)" and "untouched (partialMutableNamespace e)"
  shows "\<exists>pm p. finalizePartial s e = Inr (e\<lparr>partialMutableNamespace := pm, partialNamespace := p\<rparr>) \<and>
               sealedObj p"
proof -
  let ?pm0 = "(if builtin e
                 then snd (obj_delete (partialMutableNamespace e) (Name ''default''))
                 else partialMutableNamespace e)"
  let ?p0 = "(if builtin e
                then snd (obj_delete (partialNamespace e) (Name ''default''))
                else partialNamespace e)"
  have "untouched ?pm0" "untouched ?p0"
    using assms by (simp_all add: untouched_delete)
  from untouched_assignInitial [OF this, of "partialNames s e"]
  have "snd (assignInitial ?pm0 ?p0 (partialNames s e))" by simp
  then have "finalizePartial s e =
      Inr (e\<lparr>partialMutableNamespace := fst (fst (assignInitial ?pm0 ?p0 (partialNames s e))),
             partialNamespace := obj_seal (snd (fst (assignInitial ?pm0 ?p0 (partialNames s e))))\<rparr>)"
    by (simp add: finalizePartial_def Let_def)
  then show ?thesis
    using sealedObj_seal by blast
qed

lemma finalizeNamespace_kept: "kept e (entryOf (finalizeNamespace s e))"
proof (cases "namespaceFinalized e")
  case True
  then have "entryOf (finalizeNamespace s e) = e"
    by (simp add: finalizeNamespace_def entryOf_def)
  then show ?thesis by (simp add: kept_refl)
next
  case False
  from finalizeNamespace_fields [of s e] obtain f cm c pm p where
    flds: "entryOf (finalizeNamespace s e) =
      e\<lparr>namespaceFinalized := f, completeMutableNamespace := cm, completeNamespace := c,
        partialMutableNamespace := pm, partialNamespace := p\<rparr>"
    by blast
  have "viewsInOrder e \<Longrightarrow> viewsInOrder (entryOf (finalizeNamespace s e))"
  proof -
    assume v: "viewsInOrder e"
    let ?r = "assignInitial (completeMutableNamespace e) (completeNamespace e) (sort (map fst (ns e)))"
    let ?e3 = "e\<lparr>namespaceFinalized := True, completeMutableNamespace := fst (fst ?r),
                 completeNamespace := obj_seal (snd (fst ?r))\<rparr>"
    from v False have u: "untouched (completeNamespace e)" "untouched (completeMutableNamespace e)"
      "untouched (partialNamespace e)" "untouched (partialMutableNamespace e)"
      by (simp_all add: viewsInOrder_def)
    from untouched_assignInitial [OF u(2) u(1), of "sort (map fst (ns e))"]
    have ok: "snd ?r" by simp
    show ?thesis
    proof (cases "etype e = TYPE_ESM")
      case True
      with ok False have "finalizeNamespace s e = Inr ?e3"
        by (simp add: finalizeNamespace_def Let_def)
      then show ?thesis
        using True by (simp add: entryOf_def viewsInOrder_def sealedObj_seal)
    next
      case ne: False
      from finalizePartial_order [of ?e3 s] u obtain pm' p' where
        fp: "finalizePartial s ?e3 = Inr (?e3\<lparr>partialMutableNamespace := pm', partialNamespace := p'\<rparr>)"
        and sp: "sealedObj p'"
        by auto
      from ok False ne fp have "finalizeNamespace s e =
          Inr (?e3\<lparr>partialMutableNamespace := pm', partialNamespace := p'\<rparr>)"
        by (simp add: finalizeNamespace_def Let_def)
      then show ?thesis
        using sp by (simp add: entryOf_def viewsInOrder_def sealedObj_seal)
    qed
  qed
  then show ?thesis
    using False by (simp add: kept_def flds)
qed

subsection \<open>Every step keeps the entries\<close>

lemma kept_getters_ns: "kept e (e\<lparr>getters := g, ns := n\<rparr>)"
  by (rule kept_same) simp_all

lemma assignExportsToNamespace_kept:
  "assignExportsToNamespace s e nms = Inr e' \<Longrightarrow> kept e e'"
  using assignExportsToNamespace_fields kept_getters_ns by blast

lemma finalizeIn_follows: "follows s (stateOf (finalizeIn s i))"
proof (cases "entries s i")
  case None
  then show ?thesis by (simp add: finalizeIn_def stateOf_def follows_refl)
next
  case (Some e)
  show ?thesis
    unfolding finalizeIn_state [OF Some]
    by (rule follows_put [OF Some finalizeNamespace_kept])
qed

lemma interopStep_follows:
  assumes "entries s i = Some e" and "kept e e2"
  shows "follows s (stateOf (interopStep s i e2 names))"
proof -
  have p: "follows s (put_entry s i e2)"
    by (rule follows_put [OF assms])
  have h: "\<And>hp. follows s ((put_entry (s\<lparr>heap := hp\<rparr>) i e2))"
  proof -
    fix hp
    have "entries (s\<lparr>heap := hp\<rparr>) i = Some e" using assms(1) by simp
    from follows_trans [OF follows_heap follows_put [OF this assms(2)]]
    show "follows s ((put_entry (s\<lparr>heap := hp\<rparr>) i e2))" .
  qed
  have q: "follows s (put_entry s i (e2\<lparr>mod_exports := v\<rparr>))" for v
  proof (rule follows_put [OF assms(1)])
    have "kept e2 (e2\<lparr>mod_exports := v\<rparr>)" by (rule kept_same) simp_all
    with assms(2) show "kept e (e2\<lparr>mod_exports := v\<rparr>)" by (rule kept_trans)
  qed
  show ?thesis
    unfolding interopStep_def stateOf_def
    using p h q by (auto split: sum.splits option.splits)
qed

lemma loaded_follows: "follows s (stateOf (loaded s i))"
proof (cases "entries s i")
  case None
  then show ?thesis by (simp add: loaded_def stateOf_def follows_refl)
next
  case (Some e)
  show ?thesis
  proof (cases "loaded_state e \<noteq> LOAD_INCOMPLETE \<or> \<not> mod_loaded e \<or> \<not> childrenLoaded s e")
    case True
    then have "loaded s i = Inr s" using Some by (auto simp: loaded_def)
    then show ?thesis by (simp add: stateOf_def follows_refl)
  next
    case run: False
    show ?thesis
    proof (cases "etype e = TYPE_ESM \<or> etype e = TYPE_WASM")
      case True
      let ?names = "getExportsObjectKeys s e (exports e)"
      let ?e1 = "e\<lparr>loaded_state := LOAD_COMPLETED, namespaceProxied := False\<rparr>"
      obtain e2 where e2: "assignExportsToNamespace s ?e1 (NamesArray ?names) = Inr e2"
        using assignExportsToNamespace_array by blast
      have k1: "kept e ?e1" by (rule kept_same) simp_all
      have k2: "kept e e2"
        using kept_trans [OF k1 assignExportsToNamespace_kept [OF e2]] .
      have ld: "loaded s i = (case interopStep s i e2 ?names of
                         Inl x \<Rightarrow> Inl x
                       | Inr s' \<Rightarrow> finalizeIn s' i)"
        using Some run True e2 by (auto simp: loaded_def Let_def)
      have st: "follows s (stateOf (interopStep s i e2 ?names))"
        by (rule interopStep_follows [OF Some k2])
      show ?thesis
      proof (cases "interopStep s i e2 ?names")
        case (Inl x)
        with ld st show ?thesis by simp
      next
        case (Inr s')
        with st have "follows s s'" by (simp add: stateOf_def)
        moreover have "follows s' (stateOf (finalizeIn s' i))" by (rule finalizeIn_follows)
        ultimately show ?thesis
          using ld Inr by (auto intro: follows_trans)
      qed
    next
      case False
      let ?exported = "mod_exports e"
      let ?names = "getExportsObjectKeys s e ?exported"
      let ?e1 = "e\<lparr>loaded_state := LOAD_COMPLETED\<rparr>"
      let ?esModule = "(case read_prop s ?exported ''__esModule'' of
                                Inl _ \<Rightarrow> False | Inr v \<Rightarrow> truthy v)"
      let ?e2 = "(if ?exported \<noteq> Null \<and> ?exported \<noteq> Undefined \<and> ?esModule \<and>
                           etype ?e1 = TYPE_CJS \<and> interop (options ?e1)
                        then ?e1\<lparr>namespaceProxied := False, etype := TYPE_PSEUDO\<rparr> else ?e1)"
      let ?e3 = "(if etype ?e2 = TYPE_CJS \<and> map_of (getters ?e2) ''default'' = None
                        then addGetter ?e2 ''default'' (NamespaceGet ''default'') else ?e2)"
      let ?e4 = "?e3\<lparr>exports := (if etype ?e3 = TYPE_CJS then proxyExports i ?e3
                                        else ?exported)\<rparr>"
      have k2: "kept e ?e2"
        using False by (auto simp: kept_def keysKept_def viewsInOrder_def)
      have k3: "kept ?e2 ?e3"
        by (auto simp: addGetter_def intro!: kept_same kept_refl)
      have k4: "kept ?e3 ?e4" by (rule kept_same) simp_all
      have k: "kept e ?e4"
        using kept_trans [OF kept_trans [OF k2 k3] k4] .
      obtain e5 where e5: "assignExportsToNamespace s ?e4 (NamesArray ?names) = Inr e5"
        using assignExportsToNamespace_array by blast
      have k5: "kept e e5"
        using kept_trans [OF k assignExportsToNamespace_kept [OF e5]] .
      have ld: "loaded s i = finalizeIn (put_entry s i e5) i"
        using Some run False e5 by (simp add: loaded_def Let_def)
      have "follows s (put_entry s i e5)"
        by (rule follows_put [OF Some k5])
      moreover have "follows (put_entry s i e5) (stateOf (finalizeIn (put_entry s i e5) i))"
        by (rule finalizeIn_follows)
      ultimately show ?thesis
        unfolding ld by (rule follows_trans)
    qed
  qed
qed

lemma write_prop_follows:
  "write_prop s v n x = Inr s' \<Longrightarrow> follows s s'"
  by (auto simp: write_prop_def follows_heap split: option.splits)

lemma ns_write_follows:
  assumes "entries s i = Some e"
  shows "follows s (stateOf (ns_write s i e n v))"
proof -
  have k1: "kept e (e\<lparr>changed := True\<rparr>)" by (rule kept_same) simp_all
  have k2: "kept e (e\<lparr>changed := True, ns := x\<rparr>)" for x by (rule kept_same) simp_all
  have f1: "follows s (put_entry s i (e\<lparr>changed := True\<rparr>))"
    by (rule follows_put [OF assms k1])
  have f2: "follows s (put_entry s i (e\<lparr>changed := True, ns := x\<rparr>))" for x
    by (rule follows_put [OF assms k2])
  have f3: "follows s s'"
    if "write_prop (put_entry s i (e\<lparr>changed := True\<rparr>)) (exports e) n v = Inr s'" for s'
  proof -
    from write_prop_follows [OF that]
    have "follows (put_entry s i (e\<lparr>changed := True\<rparr>)) s'" .
    with f1 show ?thesis by (rule follows_trans)
  qed
  show ?thesis
    unfolding ns_write_def Let_def stateOf_def
    using f1 f2 f3 by (auto split: option.splits slot.splits sum.splits)
qed

lemma runGetter_follows: "follows s (stateOf (runGetter s i n))"
proof (cases "entries s i")
  case None
  then show ?thesis by (simp add: runGetter_def stateOf_def follows_refl)
next
  case (Some e)
  have k: "kept e (e\<lparr>ns := x\<rparr>)" for x by (rule kept_same) simp_all
  have f: "follows s (stateOf (Inr (put_entry s i (e\<lparr>ns := x\<rparr>))))" for x
    using follows_put [OF Some k] by (simp add: stateOf_def)
  have w: "follows s (stateOf (ns_write s i e n v))" for v
    by (rule ns_write_follows [OF Some])
  have r: "follows s (stateOf (Inr s))" "follows s (stateOf (Inl (err, s)))" for err
    by (simp_all add: stateOf_def follows_refl)
  show ?thesis
    unfolding runGetter_def Let_def
    using Some f w r
    by (auto split: sum.splits)
qed

lemma runGetterList_follows: "follows s (stateOf (runGetterList s i xs))"
proof (induction xs arbitrary: s)
  case Nil
  then show ?case by (simp add: stateOf_def follows_refl)
next
  case (Cons n xs)
  show ?case
  proof (cases "runGetter s i n")
    case (Inl x)
    with runGetter_follows [of s i n] show ?thesis by (simp add: stateOf_def)
  next
    case (Inr s')
    with runGetter_follows [of s i n] have "follows s s'" by (simp add: stateOf_def)
    with Cons [of s'] Inr show ?thesis by (auto intro: follows_trans)
  qed
qed

lemma runGetters_follows: "follows s (stateOf (runGetters s i nms))"
proof (cases "entries s i")
  case None
  then show ?thesis by (simp add: runGetters_def stateOf_def follows_refl)
next
  case (Some e)
  have a: "follows s (put_entry s i e')" if "assignExportsToNamespace s e nms = Inr e'" for e'
    by (rule follows_put [OF Some assignExportsToNamespace_kept [OF that]])
  show ?thesis
    unfolding runGetters_def
    using Some runGetterList_follows a
    by (auto split: names.splits sum.splits simp: stateOf_def follows_refl)
qed

lemma map_of_assoc_set: "map_of (assoc_set xs k v) = (map_of xs)(k \<mapsto> v)"
  by (induction xs) auto

lemma fold_set_True:
  "map_of ib n = Some True \<Longrightarrow>
   map_of (fold (\<lambda>m b. assoc_set b m True) xs ib) n = Some True"
  by (induction xs arbitrary: ib) (auto simp: map_of_assoc_set)

lemma kept_bindings:
  "kept e (e\<lparr>importedBindings := fold (\<lambda>m b. assoc_set b m True) xs (importedBindings e)\<rparr>)"
  by (simp add: kept_def keysKept_def viewsInOrder_def fold_set_True)

lemma callback_followsPass: "followsPass s (fst (callback b st s pm))"
proof (cases "entries s (parent st)")
  case None
  then show ?thesis by (simp add: callback_def followsPass_refl)
next
  case (Some pe)
  have "followsPass s (put_entry s (parent st) pe)"
    by (rule followsPass_put [OF Some kept_refl])
  moreover have "followsPass s (put_entry s (parent st)
      (pe\<lparr>importedBindings := fold (\<lambda>m b. assoc_set b m True) (localNames st) (importedBindings pe)\<rparr>))"
    by (rule followsPass_put [OF Some kept_bindings])
  ultimately show ?thesis
    using Some by (simp add: callback_def Let_def)
qed

lemma stateOfPass_simps:
  "stateOfPass (Inr x) = fst x" "stateOfPass (Inl (err, s)) = s"
  by (simp_all add: stateOfPass_def split: prod.splits)

lemma fireSetter_followsPass:
  assumes "entries s i = Some e"
  shows "followsPass s (fst (fireSetter k s i e n l v isLoaded c ut flag pm))"
proof -
  have k: "kept e (e\<lparr>setters := x\<rparr>)" for x by (rule kept_same) simp_all
  have f2: "followsPass s ((put_entry s i (e\<lparr>setters := x\<rparr>))\<lparr>trace := t\<rparr>)" for x t
    by (rule followsPass_put_trace [OF assms k])
  have f3: "followsPass s (fst (callback flag st ((put_entry s i (e\<lparr>setters := x\<rparr>))\<lparr>trace := t\<rparr>) pm))"
    for x t st
    by (rule followsPass_trans [OF f2 callback_followsPass])
  show ?thesis
    unfolding fireSetter_def Let_def
    using f2 f3 by (simp split: if_splits)
qed

lemma runSetterStep_followsPass:
  "followsPass s (stateOfPass (runSetterStep k s i n a b c flag ut pm))"
proof (cases "entries s i")
  case None
  then show ?thesis by (simp add: runSetterStep_def stateOfPass_def followsPass_refl)
next
  case (Some e)
  have k: "kept e (e\<lparr>setters := x\<rparr>)" for x by (rule kept_same) simp_all
  have f1: "followsPass s (put_entry s i (e\<lparr>setters := x\<rparr>))" for x
    by (rule followsPass_put [OF Some k])
  have f2: "followsPass s (fst (fireSetter k s i e n l v b c ut flag pm))" for l v
    by (rule fireSetter_followsPass [OF Some])
  show ?thesis
    unfolding runSetterStep_def Let_def
    using Some f1 f2
    by (auto split: option.splits simp: followsPass_refl stateOfPass_simps)
qed

lemma runSetterLoop_followsPass:
  "followsPass s (stateOfPass (runSetterLoop k s i n a b c flag ut pm))"
proof (induction k arbitrary: s pm)
  case 0
  then show ?case by (simp add: stateOfPass_def followsPass_refl)
next
  case (Suc k)
  show ?case
  proof (cases "runSetterStep k s i n a b c flag ut pm")
    case (Inl x)
    with runSetterStep_followsPass [of s k i n a b c flag ut pm] show ?thesis
      by (simp add: stateOfPass_def)
  next
    case (Inr y)
    obtain s' pm' where y: "y = (s', pm')" by (cases y)
    with Inr runSetterStep_followsPass [of s k i n a b c flag ut pm] have "followsPass s s'"
      by (simp add: stateOfPass_def)
    with Suc [of s' pm'] Inr y show ?thesis by (auto intro: followsPass_trans)
  qed
qed

lemma runSetter_followsPass:
  "followsPass s (stateOfPass (runSetter s i n flag ut pm))"
  unfolding runSetter_def
  using runSetterLoop_followsPass
  by (auto split: option.splits simp: stateOfPass_def followsPass_refl)

lemma runSetterList_followsPass:
  "followsPass s (stateOfPass (runSetterList s i xs flag ut pm))"
proof (induction xs arbitrary: s pm)
  case Nil
  then show ?case by (simp add: stateOfPass_def followsPass_refl)
next
  case (Cons n xs)
  show ?case
  proof (cases "runSetter s i n flag ut pm")
    case (Inl x)
    with runSetter_followsPass [of s i n flag ut pm] show ?thesis
      by (simp add: stateOfPass_def)
  next
    case (Inr y)
    obtain s' pm' where y: "y = (s', pm')" by (cases y)
    with Inr runSetter_followsPass [of s i n flag ut pm] have "followsPass s s'"
      by (simp add: stateOfPass_def)
    with Cons [of s' pm'] Inr y show ?thesis by (auto intro: followsPass_trans)
  qed
qed

lemma runSetters_followsPass:
  "followsPass s (stateOfPass (runSetters s i nms flag ut))"
  unfolding runSetters_def
  using runSetterList_followsPass
  by (auto split: option.splits names.splits simp: stateOfPass_def followsPass_refl)

subsection \<open>What a propagation does\<close>

lemma stateOfUpdate_simps:
  "stateOfUpdate (Inr x) = fst x" "stateOfUpdate (Inl (err, s)) = s"
  by (simp_all add: stateOfUpdate_def split: prod.splits)

lemma updateOk_return: "updateOk s seen (Inr (s, seen))"
  by (cases seen) (simp_all add: updateOk_def stateOfUpdate_simps evolves_refl)

lemma updateOk_throw:
  "evolves s s' \<Longrightarrow> spreads s' = spreads s \<Longrightarrow> updateOk s seen (Inl (err, s'))"
  by (simp add: updateOk_def stateOfUpdate_simps)

lemma updateOk_before:
  assumes "evolves s s1" and "spreads s1 = spreads s" and "updateOk s1 seen r"
  shows "updateOk s seen r"
  using assms unfolding updateOk_def by (auto intro: evolves_trans)

lemma updateOk_then:
  assumes a: "updateOk s (Some sn) (Inr (s2, seen2))" and b: "updateOk s2 seen2 r"
  shows "updateOk s (Some sn) r"
proof -
  from a obtain n1 where n1: "spreads s2 = spreads s @ n1" "distinct n1" "set n1 \<inter> sn = {}"
    "set n1 \<subseteq> seenSet seen2" "sn \<subseteq> seenSet seen2" "seen2 \<noteq> None" and e1: "evolves s s2"
    by (auto simp: updateOk_def stateOfUpdate_simps seenSet_def)
  from b obtain n2 where n2: "spreads (stateOfUpdate r) = spreads s2 @ n2" "distinct n2"
    "set n2 \<inter> seenSet seen2 = {}"
    "case r of Inl x \<Rightarrow> True
     | Inr (s', seen') \<Rightarrow> set n2 \<subseteq> seenSet seen' \<and> seenSet seen2 \<subseteq> seenSet seen' \<and>
                          (seen2 = None \<or> seen' \<noteq> None)"
    and e2: "evolves s2 (stateOfUpdate r)"
    by (auto simp: updateOk_def)
  have "spreads (stateOfUpdate r) = spreads s @ (n1 @ n2)" using n1(1) n2(1) by simp
  moreover have "distinct (n1 @ n2)" using n1(2,4) n2(2,3) by auto
  moreover have "set (n1 @ n2) \<inter> seenSet (Some sn) = {}"
    using n1(3,5) n2(3) by (auto simp: seenSet_def)
  moreover have "case r of Inl x \<Rightarrow> True
     | Inr (s', seen') \<Rightarrow> set (n1 @ n2) \<subseteq> seenSet seen' \<and> seenSet (Some sn) \<subseteq> seenSet seen' \<and>
                          (Some sn = None \<or> seen' \<noteq> None)"
    using n1(4,5,6) n2(4) by (cases r) (auto simp: seenSet_def)
  ultimately show ?thesis
    unfolding updateOk_def using evolves_trans [OF e1 e2] by blast
qed

lemma forParents_ok:
  assumes step: "\<And>s p sn r. upd s p sn = Some r \<Longrightarrow> updateOk s (Some sn) r"
  shows "forParents upd ps s sn = Some r \<Longrightarrow> updateOk s (Some sn) r"
proof (induction ps arbitrary: s sn)
  case Nil
  then show ?case using updateOk_return [of s "Some sn"] by simp
next
  case (Cons p ps)
  show ?case
  proof (cases "loaded s p")
    case (Inl x)
    obtain err s' where x: "x = (err, s')" by (cases x)
    with Inl loaded_follows [of s p] have "follows s s'" by (simp add: stateOf_simps)
    then have "updateOk s (Some sn) (Inl (err, s'))"
      by (intro updateOk_throw) (simp_all add: follows_def)
    with Cons.prems Inl x show ?thesis by simp
  next
    case (Inr s1)
    with loaded_follows [of s p] have f: "follows s s1" by (simp add: stateOf_simps)
    then have pre: "evolves s s1" "spreads s1 = spreads s" by (simp_all add: follows_def)
    show ?thesis
    proof (cases "upd s1 p sn")
      case None
      with Cons.prems Inr show ?thesis by simp
    next
      case (Some r1)
      note ok1 = step [OF Some]
      show ?thesis
      proof (cases r1)
        case (Inl x)
        with Cons.prems Inr Some have "r = r1" by simp
        with ok1 show ?thesis using updateOk_before [OF pre] by simp
      next
        case r1: (Inr y)
        obtain s2 seen2 where y: "y = (s2, seen2)" by (cases y)
        from ok1 r1 y have ok: "updateOk s1 (Some sn) (Inr (s2, seen2))" by simp
        then have ne: "seen2 \<noteq> None" by (auto simp: updateOk_def)
        then obtain sn2 where sn2: "seen2 = Some sn2" by auto
        from Cons.prems Inr Some r1 y sn2 have "forParents upd ps s2 sn2 = Some r" by simp
        from Cons.IH [OF this] have "updateOk s2 seen2 r" using sn2 by simp
        from updateOk_then [OF ok this] show ?thesis
          using updateOk_before [OF pre] by simp
      qed
    qed
  qed
qed

lemma resetChanged_follows: "follows s (resetChanged s i)"
proof (cases "entries s i")
  case None
  then show ?thesis by (simp add: resetChanged_def follows_refl)
next
  case (Some e)
  have "kept e (e\<lparr>changed := False\<rparr>)" by (rule kept_same) simp_all
  from follows_put [OF Some this] Some show ?thesis by (simp add: resetChanged_def)
qed

lemma updateBindings_ok:
  "updateBindings fuel s i nms ut seen = Some r \<Longrightarrow> updateOk s seen r"
proof (induction fuel arbitrary: s i nms ut seen r)
  case 0
  then show ?case by simp
next
  case (Suc fuel)
  show ?case
  proof (cases "entries s i")
    case None
    with Suc.prems show ?thesis using updateOk_return by auto
  next
    case (Some e)
    show ?thesis
    proof (cases "shouldUpdateParents e ut \<and> (case seen of None \<Rightarrow> False | Some sn \<Rightarrow> i \<in> sn)")
      case True
      with Suc.prems Some show ?thesis using updateOk_return by auto
    next
      case guard: False
      let ?s0 = "(put_entry s i (e\<lparr>changed := False\<rparr>))\<lparr>bodies := bodies s @ [i]\<rparr>"
      have k0: "kept e (e\<lparr>changed := False\<rparr>)" by (rule kept_same) simp_all
      have "entries ?s0 = entries (put_entry s i (e\<lparr>changed := False\<rparr>))" by simp
      from evolves_trans [OF evolves_put [OF Some k0] evolves_entries [OF this]]
      have e0: "evolves s ?s0" .
      have sp0: "spreads ?s0 = spreads s" by (simp add: put_entry_def)
      show ?thesis
      proof (cases "runGetters ?s0 i (normalizeNames nms)")
        case (Inl x)
        obtain err s' where x: "x = (err, s')" by (cases x)
        with Inl runGetters_follows [of ?s0 i "normalizeNames nms"] have "follows ?s0 s'"
          by (simp add: stateOf_simps)
        then have "updateOk ?s0 seen (Inl (err, s'))"
          by (intro updateOk_throw) (simp_all add: follows_def)
        from updateOk_before [OF e0 sp0 this] Suc.prems Some guard Inl x show ?thesis
          by (simp add: Let_def)
      next
        case (Inr s1)
        with runGetters_follows [of ?s0 i "normalizeNames nms"] have "follows ?s0 s1"
          by (simp add: stateOf_simps)
        then have e1: "evolves s s1" and sp1: "spreads s1 = spreads s"
          using e0 sp0 by (auto simp: follows_def intro: evolves_trans)
        let ?p = "runSetters s1 i (normalizeNames nms) (shouldUpdateParents e ut) ut"
        show ?thesis
        proof (cases ?p)
          case (Inl x)
          obtain err s' where x: "x = (err, s')" by (cases x)
          with Inl runSetters_followsPass [of s1 i "normalizeNames nms" "shouldUpdateParents e ut" ut]
          have "followsPass s1 s'" by (simp add: stateOfPass_simps)
          then have "updateOk s1 seen (Inl (err, s'))"
            by (intro updateOk_throw) (simp_all add: followsPass_def)
          from updateOk_before [OF e1 sp1 this] Suc.prems Some guard Inr Inl x show ?thesis
            by (simp add: Let_def)
        next
          case pass: (Inr y)
          obtain s2 pm where y: "y = (s2, pm)" by (cases y)
          with pass runSetters_followsPass [of s1 i "normalizeNames nms" "shouldUpdateParents e ut" ut]
          have "followsPass s1 s2" by (simp add: stateOfPass_simps)
          then have e2: "evolves s s2" and sp2: "spreads s2 = spreads s"
            using e1 sp1 by (auto simp: followsPass_def intro: evolves_trans)
          have f3: "follows s2 (resetChanged s2 i)" by (rule resetChanged_follows)
          then have e3: "evolves s (resetChanged s2 i)"
            and sp3: "spreads (resetChanged s2 i) = spreads s"
            using e2 sp2 by (auto simp: follows_def intro: evolves_trans)
          show ?thesis
          proof (cases pm)
            case None
            with Suc.prems Some guard Inr pass y have r: "r = Inr (resetChanged s2 i, seen)"
              by (simp add: Let_def)
            show ?thesis
              unfolding r using updateOk_before [OF e3 sp3 updateOk_return] .
          next
            case pending: (Some m)
            have flag: "shouldUpdateParents e ut"
              using pass y pending runSetters_False
              by (cases "shouldUpdateParents e ut") fastforce+
            with guard have notin: "i \<notin> seenSet seen"
              by (cases seen) (auto simp: seenSet_def)
            let ?s3 = "(resetChanged s2 i)\<lparr>spreads := spreads s2 @ [i]\<rparr>"
            let ?sn = "insert i (case seen of None \<Rightarrow> {} | Some sn \<Rightarrow> sn)"
            let ?upd = "\<lambda>s' p sn. updateBindings fuel s' p NamesNull (parentUpdateType ut) (Some sn)"
            from Suc.prems Some guard Inr pass y pending
            have fp: "forParents ?upd (map snd m) ?s3 ?sn = Some r"
              by (simp add: Let_def)
            have "updateOk ?s3 (Some ?sn) r"
              by (rule forParents_ok [OF _ fp]) (rule Suc.IH)
            then obtain new where ev: "evolves ?s3 (stateOfUpdate r)"
              and new: "spreads (stateOfUpdate r) = spreads ?s3 @ new"
              "distinct new" "set new \<inter> seenSet (Some ?sn) = {}"
              "case r of Inl x \<Rightarrow> True
               | Inr (s', seen') \<Rightarrow> set new \<subseteq> seenSet seen' \<and>
                   seenSet (Some ?sn) \<subseteq> seenSet seen' \<and> (Some ?sn = None \<or> seen' \<noteq> None)"
              unfolding updateOk_def by blast
            have "entries ?s3 = entries (resetChanged s2 i)" by simp
            from evolves_trans [OF evolves_trans [OF e3 evolves_entries [OF this]] ev]
            have E: "evolves s (stateOfUpdate r)" .
            have S: "spreads (stateOfUpdate r) = spreads s @ (i # new)"
              using new(1) sp2 by simp
            have D: "distinct (i # new)" using new(2,3) by (auto simp: seenSet_def)
            have I: "set (i # new) \<inter> seenSet seen = {}"
              using new(3) notin by (cases seen) (auto simp: seenSet_def)
            have R: "case r of Inl x \<Rightarrow> True
               | Inr (s', seen') \<Rightarrow> set (i # new) \<subseteq> seenSet seen' \<and>
                    seenSet seen \<subseteq> seenSet seen' \<and> (seen = None \<or> seen' \<noteq> None)"
              using new(4) by (cases r; cases seen) (auto simp: seenSet_def)
            show ?thesis
              unfolding updateOk_def using E S D I R by blast
          qed
        qed
      qed
    qed
  qed
qed

subsection \<open>Termination\<close>

lemma forParents_total:
  assumes step_ok: "\<And>s p sn r. upd s p sn = Some r \<Longrightarrow> updateOk s (Some sn) r"
    and step_total: "\<And>s' p sn'. dom (entries s') = D \<Longrightarrow> sn \<subseteq> sn' \<Longrightarrow> upd s' p sn' \<noteq> None"
  shows "dom (entries s) = D \<Longrightarrow> sn \<subseteq> sn0 \<Longrightarrow> forParents upd ps s sn0 \<noteq> None"
proof (induction ps arbitrary: s sn0)
  case Nil
  then show ?case by simp
next
  case (Cons p ps)
  show ?case
  proof (cases "loaded s p")
    case (Inl x)
    then show ?thesis by simp
  next
    case (Inr s1)
    with loaded_follows [of s p] have "follows s s1" by (simp add: stateOf_simps)
    then have d1: "dom (entries s1) = D"
      using Cons.prems(1) evolves_dom follows_evolves by blast
    from step_total [OF d1 Cons.prems(2)] obtain r1 where r1: "upd s1 p sn0 = Some r1"
      by auto
    show ?thesis
    proof (cases r1)
      case (Inl x)
      with Inr r1 show ?thesis by simp
    next
      case r: (Inr y)
      obtain s2 seen2 where y: "y = (s2, seen2)" by (cases y)
      from step_ok [OF r1] r y have ok: "updateOk s1 (Some sn0) (Inr (s2, seen2))" by simp
      then have "evolves s1 s2" by (simp add: updateOk_def stateOfUpdate_simps)
      then have d2: "dom (entries s2) = D" using d1 evolves_dom by blast
      from ok obtain sn2 where sn2: "seen2 = Some sn2" "sn0 \<subseteq> sn2"
        by (auto simp: updateOk_def seenSet_def)
      from Cons.IH [OF d2, of sn2] Cons.prems(2) sn2(2)
      have "forParents upd ps s2 sn2 \<noteq> None" by blast
      with Inr r1 r y sn2 show ?thesis by simp
    qed
  qed
qed

lemma updateBindings_total:
  "finite (dom (entries s)) \<Longrightarrow> card (dom (entries s) - seenSet seen) < fuel \<Longrightarrow>
   updateBindings fuel s i nms ut seen \<noteq> None"
proof (induction fuel arbitrary: s i nms ut seen)
  case 0
  then show ?case by simp
next
  case (Suc fuel)
  let ?D = "dom (entries s)"
  let ?S = "seenSet seen"
  show ?case
  proof (cases "entries s i")
    case None
    then show ?thesis by simp
  next
    case (Some e)
    let ?s0 = "(put_entry s i (e\<lparr>changed := False\<rparr>))\<lparr>bodies := bodies s @ [i]\<rparr>"
    let ?g = "runGetters ?s0 i (normalizeNames nms)"
    show ?thesis
    proof (cases "shouldUpdateParents e ut \<and> (case seen of None \<Rightarrow> False | Some sn \<Rightarrow> i \<in> sn)")
      case True
      with Some show ?thesis by simp
    next
      case guard: False
      show ?thesis
      proof (cases ?g)
        case (Inl x)
        with Some guard show ?thesis by (simp add: Let_def)
      next
        case (Inr s1)
        let ?p = "runSetters s1 i (normalizeNames nms) (shouldUpdateParents e ut) ut"
        show ?thesis
        proof (cases ?p)
          case (Inl x)
          with Some guard Inr show ?thesis by (simp add: Let_def)
        next
          case pass: (Inr y)
          obtain s2 pm where y: "y = (s2, pm)" by (cases y)
          show ?thesis
          proof (cases pm)
            case None
            with Some guard Inr pass y show ?thesis by (simp add: Let_def)
          next
            case pending: (Some m)
            have flag: "shouldUpdateParents e ut"
              using pass y pending runSetters_False
              by (cases "shouldUpdateParents e ut") fastforce+
            with guard have notin: "i \<notin> ?S"
              by (cases seen) (auto simp: seenSet_def)
            let ?s3 = "(resetChanged s2 i)\<lparr>spreads := spreads s2 @ [i]\<rparr>"
            let ?sn = "insert i (case seen of None \<Rightarrow> {} | Some sn \<Rightarrow> sn)"
            let ?upd = "\<lambda>s' p sn. updateBindings fuel s' p NamesNull (parentUpdateType ut) (Some sn)"
            have sn: "?sn = insert i ?S" by (simp add: seenSet_def)
            have k0: "kept e (e\<lparr>changed := False\<rparr>)" by (rule kept_same) simp_all
            have "entries ?s0 = entries (put_entry s i (e\<lparr>changed := False\<rparr>))" by simp
            from evolves_trans [OF evolves_put [OF Some k0] evolves_entries [OF this]]
            have e0: "evolves s ?s0" .
            from Inr runGetters_follows [of ?s0 i "normalizeNames nms"]
            have e1: "evolves ?s0 s1" by (simp add: stateOf_simps follows_def)
            from pass y runSetters_followsPass [of s1 i "normalizeNames nms" "shouldUpdateParents e ut" ut]
            have e2: "evolves s1 s2" by (simp add: stateOfPass_simps followsPass_def)
            have e3: "evolves s2 (resetChanged s2 i)"
              using resetChanged_follows follows_evolves by blast
            have "entries ?s3 = entries (resetChanged s2 i)" by simp
            then have e4: "evolves (resetChanged s2 i) ?s3" by (rule evolves_entries)
            have "evolves s ?s3"
              using e0 e1 e2 e3 e4 evolves_trans by blast
            then have d3: "dom (entries ?s3) = ?D" by (rule evolves_dom)
            have iD: "i \<in> ?D" using Some by auto
            have lt: "card (?D - insert i ?S) < card (?D - ?S)"
            proof (rule psubset_card_mono)
              show "finite (?D - ?S)" using Suc.prems(1) by simp
              show "?D - insert i ?S \<subset> ?D - ?S" using iD notin by auto
            qed
            have tot: "?upd s' p sn' \<noteq> None"
              if d: "dom (entries s') = ?D" and sub: "insert i ?S \<subseteq> sn'" for s' p sn'
            proof (rule Suc.IH)
              show "finite (dom (entries s'))" using d Suc.prems(1) by simp
              have "card (?D - sn') \<le> card (?D - insert i ?S)"
                using sub Suc.prems(1) by (intro card_mono) auto
              with lt Suc.prems(2) show "card (dom (entries s') - seenSet (Some sn')) < fuel"
                by (simp add: d seenSet_def)
            qed
            have "forParents ?upd (map snd m) ?s3 (insert i ?S) \<noteq> None"
            proof (rule forParents_total [where D = ?D and sn = "insert i ?S"])
              show "\<And>s p sn r. ?upd s p sn = Some r \<Longrightarrow> updateOk s (Some sn) r"
                by (rule updateBindings_ok)
              show "\<And>s' p sn'. dom (entries s') = ?D \<Longrightarrow> insert i ?S \<subseteq> sn' \<Longrightarrow> ?upd s' p sn' \<noteq> None"
                by (rule tot)
              show "dom (entries ?s3) = ?D" by (rule d3)
              show "insert i ?S \<subseteq> insert i ?S" by simp
            qed
            with Some guard Inr pass y pending sn show ?thesis
              by (simp add: Let_def)
          qed
        qed
      qed
    qed
  qed
qed

subsection \<open>Cycle termination\<close>

text \<open>
  C1 (amended). In a state with finitely many entries, a call of \<open>updateBindings\<close>
  terminates: fuel beyond the number of entries is enough for it to come to a result,
  whatever the import graph. Within the call tree every record is added to \<open>seen\<close>,
  and goes on to its pending parents, at most once. A re-entry on a record that is
  circular, or reached with the kind \<open>live\<close> or \<open>init\<close>, and that is in \<open>seen\<close>
  returns at once and changes nothing.
\<close>

theorem updateBindings_terminates:
  assumes "finite (dom (entries s))" and "card (dom (entries s)) < fuel"
  shows "(\<exists>r. updateBindings fuel s i nms ut None = Some r \<and>
              (\<exists>new. spreads (stateOfUpdate r) = spreads s @ new \<and> distinct new)) \<and>
         (\<forall>e sn. entries s i = Some e \<and>
                  (circular e \<or> ut = UPDATE_TYPE_LIVE \<or> ut = UPDATE_TYPE_INIT) \<and> i \<in> sn
                  \<longrightarrow> updateBindings fuel s i nms ut (Some sn) = Some (Inr (s, Some sn)))"
proof (intro conjI allI impI)
  have "updateBindings fuel s i nms ut None \<noteq> None"
    using assms by (intro updateBindings_total) (simp_all add: seenSet_def)
  then obtain r where r: "updateBindings fuel s i nms ut None = Some r" by auto
  from updateBindings_ok [OF r] have "\<exists>new. spreads (stateOfUpdate r) = spreads s @ new \<and> distinct new"
    unfolding updateOk_def by blast
  with r show "\<exists>r. updateBindings fuel s i nms ut None = Some r \<and>
              (\<exists>new. spreads (stateOfUpdate r) = spreads s @ new \<and> distinct new)"
    by blast
next
  fix e sn
  assume a: "entries s i = Some e \<and>
             (circular e \<or> ut = UPDATE_TYPE_LIVE \<or> ut = UPDATE_TYPE_INIT) \<and> i \<in> sn"
  from assms(2) obtain f where f: "fuel = Suc f" by (cases fuel) auto
  show "updateBindings fuel s i nms ut (Some sn) = Some (Inr (s, Some sn))"
    unfolding f using a by (simp add: shouldUpdateParents_def)
qed

text \<open>
  The diamond, updated at the entry \<open>0\<close> with the kind \<open>init\<close>: the call comes to a
  result with fuel \<open>4\<close>, the entries \<open>0\<close> and \<open>2\<close> go on to their parents once each,
  and a re-entry on the entry \<open>0\<close> returns at once.
\<close>

theorem updateBindings_terminates_witness:
  "(\<exists>r. updateBindings 4 diamondState 0 NamesUndefined UPDATE_TYPE_INIT None = Some r \<and>
        (\<exists>new. spreads (stateOfUpdate r) = spreads diamondState @ new \<and> distinct new)) \<and>
   updateBindings 4 diamondState 0 NamesUndefined UPDATE_TYPE_INIT (Some {0}) =
     Some (Inr (diamondState, Some {0}))"
proof -
  have d: "dom (entries diamondState) = {0, 1, 2}"
    by (auto simp: diamondState_def exampleState_def split: if_splits)
  then have f: "finite (dom (entries diamondState))" by simp
  have c: "card (dom (entries diamondState)) < 4" by (simp add: d)
  have e: "entries diamondState 0 =
      Some ((exampleEntry 0)\<lparr>getters := [(''x'', Returns (Num 1))],
                          setters := [(''*'', []),
                                      (''x'', [exampleSetter 0 2 ''x'', exampleSetter 1 1 ''x''])]\<rparr>)"
    by (simp add: diamondState_def exampleState_def)
  from updateBindings_terminates [OF f c, of 0 NamesUndefined UPDATE_TYPE_INIT] e
  show ?thesis by blast
qed

text \<open>
  In the same call the getter and setter passes of the entry \<open>1\<close> run twice: it is
  reached from the entry \<open>0\<close>, fires no setter and so is not added to \<open>seen\<close>, and is
  reached again from the entry \<open>2\<close>.
\<close>

theorem updateBindings_twice_counterexample:
  "(case updateBindings 4 diamondState 0 NamesUndefined UPDATE_TYPE_INIT None of
      Some (Inr (s, seen)) \<Rightarrow> bodies s = [0, 1, 2, 1] \<and> spreads s = [0, 2] \<and> seen = Some {0, 2}
    | _ \<Rightarrow> False)"
  by code_simp

subsection \<open>Pending parents\<close>

lemma forParents_chain:
  assumes step: "\<And>s p sn s2 seen2. upd s p sn = Some (Inr (s2, seen2)) \<Longrightarrow> seen2 \<noteq> None"
  shows "forParents upd ps s sn = Some r \<Longrightarrow>
    \<exists>\<sigma> sns k. k \<le> length ps \<and> length \<sigma> = Suc k \<and> length sns = Suc k \<and>
      \<sigma> ! 0 = s \<and> sns ! 0 = sn \<and>
      (\<forall>j<k. \<exists>\<tau>. loaded (\<sigma> ! j) (ps ! j) = Inr \<tau> \<and>
                upd \<tau> (ps ! j) (sns ! j) = Some (Inr (\<sigma> ! Suc j, Some (sns ! Suc j)))) \<and>
      (if k = length ps then r = Inr (\<sigma> ! k, Some (sns ! k))
       else \<exists>x. r = Inl x \<and>
              (loaded (\<sigma> ! k) (ps ! k) = Inl x \<or>
               (\<exists>\<tau>. loaded (\<sigma> ! k) (ps ! k) = Inr \<tau> \<and>
                    upd \<tau> (ps ! k) (sns ! k) = Some (Inl x))))"
proof (induction ps arbitrary: s sn)
  case Nil
  then have "r = Inr (s, Some sn)" by simp
  then show ?case
    by (intro exI [of _ "[s]"] exI [of _ "[sn]"] exI [of _ 0]) simp
next
  case (Cons p ps)
  show ?case
  proof (cases "loaded s p")
    case (Inl x)
    with Cons.prems have "r = Inl x" by simp
    with Inl show ?thesis
      by (intro exI [of _ "[s]"] exI [of _ "[sn]"] exI [of _ 0]) simp
  next
    case (Inr \<tau>)
    show ?thesis
    proof (cases "upd \<tau> p sn")
      case None
      with Cons.prems Inr show ?thesis by simp
    next
      case (Some r1)
      show ?thesis
      proof (cases r1)
        case (Inl x)
        with Cons.prems Inr Some have "r = Inl x" by simp
        with Inr Some Inl show ?thesis
          by (intro exI [of _ "[s]"] exI [of _ "[sn]"] exI [of _ 0]) simp
      next
        case r1: (Inr y)
        obtain s2 seen2 where y: "y = (s2, seen2)" by (cases y)
        from step [of \<tau> p sn s2 seen2] Some r1 y obtain sn2 where sn2: "seen2 = Some sn2"
          by auto
        from Cons.prems Inr Some r1 y sn2 have "forParents upd ps s2 sn2 = Some r" by simp
        from Cons.IH [OF this] obtain \<sigma> sns k where
          k: "k \<le> length ps" "length \<sigma> = Suc k" "length sns = Suc k"
          and z: "\<sigma> ! 0 = s2" "sns ! 0 = sn2"
          and st: "\<forall>j<k. \<exists>\<tau>. loaded (\<sigma> ! j) (ps ! j) = Inr \<tau> \<and>
                upd \<tau> (ps ! j) (sns ! j) = Some (Inr (\<sigma> ! Suc j, Some (sns ! Suc j)))"
          and fin: "if k = length ps then r = Inr (\<sigma> ! k, Some (sns ! k))
             else \<exists>x. r = Inl x \<and>
              (loaded (\<sigma> ! k) (ps ! k) = Inl x \<or>
               (\<exists>\<tau>. loaded (\<sigma> ! k) (ps ! k) = Inr \<tau> \<and>
                    upd \<tau> (ps ! k) (sns ! k) = Some (Inl x)))"
          by blast
        have st': "\<forall>j<Suc k. \<exists>\<tau>. loaded ((s # \<sigma>) ! j) ((p # ps) ! j) = Inr \<tau> \<and>
                upd \<tau> ((p # ps) ! j) ((sn # sns) ! j) =
                  Some (Inr ((s # \<sigma>) ! Suc j, Some ((sn # sns) ! Suc j)))"
        proof (intro allI impI)
          fix j assume "j < Suc k"
          show "\<exists>\<tau>. loaded ((s # \<sigma>) ! j) ((p # ps) ! j) = Inr \<tau> \<and>
                upd \<tau> ((p # ps) ! j) ((sn # sns) ! j) =
                  Some (Inr ((s # \<sigma>) ! Suc j, Some ((sn # sns) ! Suc j)))"
          proof (cases j)
            case 0
            with Inr Some r1 y sn2 z show ?thesis by simp
          next
            case (Suc j')
            with \<open>j < Suc k\<close> st show ?thesis by simp
          qed
        qed
        have fin': "if Suc k = length (p # ps)
             then r = Inr ((s # \<sigma>) ! Suc k, Some ((sn # sns) ! Suc k))
             else \<exists>x. r = Inl x \<and>
              (loaded ((s # \<sigma>) ! Suc k) ((p # ps) ! Suc k) = Inl x \<or>
               (\<exists>\<tau>. loaded ((s # \<sigma>) ! Suc k) ((p # ps) ! Suc k) = Inr \<tau> \<and>
                    upd \<tau> ((p # ps) ! Suc k) ((sn # sns) ! Suc k) = Some (Inl x)))"
          using fin by (cases "k = length ps") force+
        show ?thesis
          apply (intro exI [of _ "s # \<sigma>"] exI [of _ "sn # sns"] exI [of _ "Suc k"])
          using k st' fin' by simp
      qed
    qed
  qed
qed

lemma updateBindings_seen:
  "updateBindings fuel s i nms ut (Some sn) = Some (Inr (s2, seen2)) \<Longrightarrow> seen2 \<noteq> None"
  using updateBindings_ok [of fuel s i nms ut "Some sn" "Inr (s2, seen2)"]
  by (auto simp: updateOk_def)

text \<open>
  C3 (amended). When the setter pass of \<open>updateBindings\<close> has recorded pending parents,
  the record is one that updates parents: it is circular, or the kind is \<open>live\<close> or
  \<open>init\<close>. The call then goes through the pending parents in the order recorded. It
  starts from the state the passes left, with \<open>_changed\<close> reset and this record
  added to the set \<open>seen\<close>, and for each parent in turn it calls \<open>loaded\<close> on
  the parent and then \<open>updateBindings\<close> on the parent with names \<open>null\<close>, with the
  set \<open>seen\<close> as the calls before left it, and with the kind handed on, which is
  \<open>live\<close> for \<open>live\<close> and \<open>init\<close> and stays \<open>default\<close> for \<open>default\<close>. The
  states \<open>\<sigma>\<close> and the sets \<open>sns\<close> are the ones between the parents. Either every
  parent is gone through and the call returns the last state and set, or one of these
  calls throws and the call throws the same.
\<close>

theorem updateBindings_pending_parents:
  assumes "entries s i = Some e"
    and "\<not> (shouldUpdateParents e ut \<and> (case seen of None \<Rightarrow> False | Some sn \<Rightarrow> i \<in> sn))"
    and "runGetters ((put_entry s i (e\<lparr>changed := False\<rparr>))\<lparr>bodies := bodies s @ [i]\<rparr>) i
           (normalizeNames nms) = Inr s1"
    and "runSetters s1 i (normalizeNames nms) (shouldUpdateParents e ut) ut = Inr (s2, Some m)"
    and "updateBindings (Suc fuel) s i nms ut seen = Some r"
  shows "(circular e \<or> ut = UPDATE_TYPE_LIVE \<or> ut = UPDATE_TYPE_INIT) \<and>
         (\<exists>\<sigma> sns k.
            k \<le> length m \<and> length \<sigma> = Suc k \<and> length sns = Suc k \<and>
            \<sigma> ! 0 = (resetChanged s2 i)\<lparr>spreads := spreads s2 @ [i]\<rparr> \<and>
            sns ! 0 = insert i (case seen of None \<Rightarrow> {} | Some sn \<Rightarrow> sn) \<and>
            (\<forall>j<k. \<exists>\<tau>.
               loaded (\<sigma> ! j) (snd (m ! j)) = Inr \<tau> \<and>
               updateBindings fuel \<tau> (snd (m ! j)) NamesNull
                 (if ut = UPDATE_TYPE_DEFAULT then UPDATE_TYPE_DEFAULT else UPDATE_TYPE_LIVE)
                 (Some (sns ! j)) =
               Some (Inr (\<sigma> ! Suc j, Some (sns ! Suc j)))) \<and>
            (if k = length m then r = Inr (\<sigma> ! k, Some (sns ! k))
             else \<exists>x. r = Inl x \<and>
                    (loaded (\<sigma> ! k) (snd (m ! k)) = Inl x \<or>
                     (\<exists>\<tau>. loaded (\<sigma> ! k) (snd (m ! k)) = Inr \<tau> \<and>
                          updateBindings fuel \<tau> (snd (m ! k)) NamesNull
                            (if ut = UPDATE_TYPE_DEFAULT then UPDATE_TYPE_DEFAULT
                             else UPDATE_TYPE_LIVE)
                            (Some (sns ! k)) = Some (Inl x)))))"
proof -
  let ?kind = "if ut = UPDATE_TYPE_DEFAULT then UPDATE_TYPE_DEFAULT else UPDATE_TYPE_LIVE"
  let ?upd = "\<lambda>s' p sn. updateBindings fuel s' p NamesNull ?kind (Some sn)"
  let ?s3 = "(resetChanged s2 i)\<lparr>spreads := spreads s2 @ [i]\<rparr>"
  let ?sn = "insert i (case seen of None \<Rightarrow> {} | Some sn \<Rightarrow> sn)"
  have flag: "shouldUpdateParents e ut"
    using assms(4) runSetters_False by (cases "shouldUpdateParents e ut") fastforce+
  have put: "parentUpdateType ut = ?kind"
    by (simp add: parentUpdateType_def)
  have fp: "forParents ?upd (map snd m) ?s3 ?sn = Some r"
    using assms flag by (simp add: Let_def put)
  have "\<exists>\<sigma> sns k. k \<le> length (map snd m) \<and> length \<sigma> = Suc k \<and> length sns = Suc k \<and>
      \<sigma> ! 0 = ?s3 \<and> sns ! 0 = ?sn \<and>
      (\<forall>j<k. \<exists>\<tau>. loaded (\<sigma> ! j) (map snd m ! j) = Inr \<tau> \<and>
                ?upd \<tau> (map snd m ! j) (sns ! j) = Some (Inr (\<sigma> ! Suc j, Some (sns ! Suc j)))) \<and>
      (if k = length (map snd m) then r = Inr (\<sigma> ! k, Some (sns ! k))
       else \<exists>x. r = Inl x \<and>
              (loaded (\<sigma> ! k) (map snd m ! k) = Inl x \<or>
               (\<exists>\<tau>. loaded (\<sigma> ! k) (map snd m ! k) = Inr \<tau> \<and>
                    ?upd \<tau> (map snd m ! k) (sns ! k) = Some (Inl x))))"
  proof (rule forParents_chain [OF _ fp])
    fix s p sn s2 seen2
    assume "?upd s p sn = Some (Inr (s2, seen2))"
    then show "seen2 \<noteq> None" by (rule updateBindings_seen)
  qed
  then obtain \<sigma> sns k where
    k: "k \<le> length (map snd m)" "length \<sigma> = Suc k" "length sns = Suc k"
      "\<sigma> ! 0 = ?s3" "sns ! 0 = ?sn"
    and st: "\<forall>j<k. \<exists>\<tau>. loaded (\<sigma> ! j) (map snd m ! j) = Inr \<tau> \<and>
                ?upd \<tau> (map snd m ! j) (sns ! j) = Some (Inr (\<sigma> ! Suc j, Some (sns ! Suc j)))"
    and fin: "if k = length (map snd m) then r = Inr (\<sigma> ! k, Some (sns ! k))
       else \<exists>x. r = Inl x \<and>
              (loaded (\<sigma> ! k) (map snd m ! k) = Inl x \<or>
               (\<exists>\<tau>. loaded (\<sigma> ! k) (map snd m ! k) = Inr \<tau> \<and>
                    ?upd \<tau> (map snd m ! k) (sns ! k) = Some (Inl x)))"
    by blast
  have st': "\<forall>j<k. \<exists>\<tau>. loaded (\<sigma> ! j) (snd (m ! j)) = Inr \<tau> \<and>
                ?upd \<tau> (snd (m ! j)) (sns ! j) = Some (Inr (\<sigma> ! Suc j, Some (sns ! Suc j)))"
    using st k(1) by auto
  have fin': "if k = length m then r = Inr (\<sigma> ! k, Some (sns ! k))
       else \<exists>x. r = Inl x \<and>
              (loaded (\<sigma> ! k) (snd (m ! k)) = Inl x \<or>
               (\<exists>\<tau>. loaded (\<sigma> ! k) (snd (m ! k)) = Inr \<tau> \<and>
                    ?upd \<tau> (snd (m ! k)) (sns ! k) = Some (Inl x)))"
  proof (cases "k = length m")
    case True
    with fin show ?thesis by simp
  next
    case False
    with k(1) have "k < length m" by simp
    then have "map snd m ! k = snd (m ! k)" by simp
    with fin False show ?thesis by simp
  qed
  from flag have "circular e \<or> ut = UPDATE_TYPE_LIVE \<or> ut = UPDATE_TYPE_INIT"
    by (simp add: shouldUpdateParents_def)
  moreover have "\<exists>\<sigma> sns k.
            k \<le> length m \<and> length \<sigma> = Suc k \<and> length sns = Suc k \<and>
            \<sigma> ! 0 = ?s3 \<and> sns ! 0 = ?sn \<and>
            (\<forall>j<k. \<exists>\<tau>.
               loaded (\<sigma> ! j) (snd (m ! j)) = Inr \<tau> \<and>
               ?upd \<tau> (snd (m ! j)) (sns ! j) = Some (Inr (\<sigma> ! Suc j, Some (sns ! Suc j)))) \<and>
            (if k = length m then r = Inr (\<sigma> ! k, Some (sns ! k))
             else \<exists>x. r = Inl x \<and>
                    (loaded (\<sigma> ! k) (snd (m ! k)) = Inl x \<or>
                     (\<exists>\<tau>. loaded (\<sigma> ! k) (snd (m ! k)) = Inr \<tau> \<and>
                          ?upd \<tau> (snd (m ! k)) (sns ! k) = Some (Inl x))))"
    using k st' fin' by (intro exI [of _ \<sigma>] exI [of _ sns] exI [of _ k]) simp
  ultimately show ?thesis by blast
qed


text \<open>
  The state the getter and setter passes of a \<open>default\<close> update of the entry \<open>0\<close>
  of the chain leave, and the update itself: the parent \<open>1\<close> is pending, \<open>loaded\<close>
  is called on it and then \<open>updateBindings\<close> with names \<open>null\<close>, the kind
  \<open>default\<close> and the set \<open>seen\<close> that holds the entry \<open>0\<close>, and what that call
  returns is what the update returns.
\<close>

theorem updateBindings_pending_parents_witness:
  "circular chainEntry0 \<and>
   (\<exists>\<tau> s' sn'.
      loaded ((resetChanged chainPass 0)\<lparr>spreads := spreads chainPass @ [0]\<rparr>) 1 = Inr \<tau> \<and>
      updateBindings 4 \<tau> 1 NamesNull UPDATE_TYPE_DEFAULT (Some {0}) = Some (Inr (s', Some sn')) \<and>
      updateBindings 5 chainState 0 NamesUndefined UPDATE_TYPE_DEFAULT None =
        Some (Inr (s', Some sn')))"
proof -
  let ?s0 = "(put_entry chainState 0 (chainEntry0\<lparr>changed := False\<rparr>))
                    \<lparr>bodies := bodies chainState @ [0]\<rparr>"
  let ?g = "runGetters ?s0 0 (normalizeNames NamesUndefined)"
  let ?r = "runSetters (projr ?g) 0 (normalizeNames NamesUndefined)
              (shouldUpdateParents chainEntry0 UPDATE_TYPE_DEFAULT) UPDATE_TYPE_DEFAULT"
  let ?u = "updateBindings (Suc 4) chainState 0 NamesUndefined UPDATE_TYPE_DEFAULT None"
  let ?s3 = "(resetChanged chainPass 0)\<lparr>spreads := spreads chainPass @ [0]\<rparr>"
  have c: "circular chainEntry0" by (simp add: chainEntry0_def)
  have e: "entries chainState 0 = Some chainEntry0"
    by (simp add: chainState_def exampleState_def)
  have g: "\<not> (shouldUpdateParents chainEntry0 UPDATE_TYPE_DEFAULT \<and>
               (case None :: nat set option of None \<Rightarrow> False | Some sn \<Rightarrow> 0 \<in> sn))"
    by simp
  have "\<not> isl ?g" by code_simp
  then have g1: "?g = Inr (projr ?g)" by (rule sum_Inr_projr)
  have "\<not> isl ?r" by code_simp
  then have "?r = Inr (projr ?r)" by (rule sum_Inr_projr)
  moreover have "snd (projr ?r) = Some [(''b'', 1)]" by code_simp
  moreover have "fst (projr ?r) = chainPass"
    by (simp add: chainPass_def normalizeNames_def shouldUpdateParents_def c)
  ultimately have r1: "?r = Inr (chainPass, Some [(''b'', 1)])"
    by (metis prod.collapse)
  have "?u \<noteq> None" by code_simp
  then have u: "?u = Some (the ?u)" by simp
  have nl: "\<not> isl (the ?u)" by code_simp
  from updateBindings_pending_parents [OF e g g1 r1 u] obtain \<sigma> sns k where
    k: "k \<le> length [(''b'', 1 :: nat)]"
    and z: "\<sigma> ! 0 = ?s3" "sns ! 0 = insert 0 (case None of None \<Rightarrow> {} | Some sn \<Rightarrow> sn)"
    and st: "\<forall>j<k. \<exists>\<tau>.
               loaded (\<sigma> ! j) (snd ([(''b'', 1 :: nat)] ! j)) = Inr \<tau> \<and>
               updateBindings 4 \<tau> (snd ([(''b'', 1 :: nat)] ! j)) NamesNull
                 (if UPDATE_TYPE_DEFAULT = UPDATE_TYPE_DEFAULT then UPDATE_TYPE_DEFAULT
                  else UPDATE_TYPE_LIVE)
                 (Some (sns ! j)) =
               Some (Inr (\<sigma> ! Suc j, Some (sns ! Suc j)))"
    and fin: "if k = length [(''b'', 1 :: nat)] then the ?u = Inr (\<sigma> ! k, Some (sns ! k))
             else \<exists>x. the ?u = Inl x \<and>
                    (loaded (\<sigma> ! k) (snd ([(''b'', 1 :: nat)] ! k)) = Inl x \<or>
                     (\<exists>\<tau>. loaded (\<sigma> ! k) (snd ([(''b'', 1 :: nat)] ! k)) = Inr \<tau> \<and>
                          updateBindings 4 \<tau> (snd ([(''b'', 1 :: nat)] ! k)) NamesNull
                            (if UPDATE_TYPE_DEFAULT = UPDATE_TYPE_DEFAULT then UPDATE_TYPE_DEFAULT
                             else UPDATE_TYPE_LIVE)
                            (Some (sns ! k)) = Some (Inl x)))"
    by blast
  have k1: "k = 1"
  proof (rule ccontr)
    assume "k \<noteq> 1"
    with fin obtain x where "the ?u = Inl x" by auto
    with nl show False by simp
  qed
  from fin k1 have f: "the ?u = Inr (\<sigma> ! 1, Some (sns ! 1))" by simp
  from st k1 obtain \<tau> where t: "loaded (\<sigma> ! 0) 1 = Inr \<tau>"
    "updateBindings 4 \<tau> 1 NamesNull UPDATE_TYPE_DEFAULT (Some (sns ! 0)) =
       Some (Inr (\<sigma> ! 1, Some (sns ! 1)))"
    by auto
  from u f have "updateBindings 5 chainState 0 NamesUndefined UPDATE_TYPE_DEFAULT None =
      Some (Inr (\<sigma> ! 1, Some (sns ! 1)))"
    by simp
  with t z c show ?thesis by auto
qed

text \<open>
  The kind \<open>default\<close> is not escalated to \<open>live\<close>. On the chain, a \<open>default\<close>
  update of the entry \<open>0\<close> reaches its importer \<open>1\<close> with kind \<open>default\<close>, so
  \<open>1\<close> does not go on to its own importer \<open>2\<close>; with the kind \<open>live\<close> it does.
\<close>

theorem escalate_default_counterexample:
  "parentUpdateType UPDATE_TYPE_DEFAULT \<noteq> UPDATE_TYPE_LIVE \<and>
   (case updateBindings 5 chainState 0 NamesUndefined UPDATE_TYPE_DEFAULT None of
      Some (Inr (s, sn)) \<Rightarrow> bodies s = [0, 1] \<and> spreads s = [0] \<and> sn = Some {0}
    | _ \<Rightarrow> False) \<and>
   (case updateBindings 5 chainState 0 NamesUndefined UPDATE_TYPE_LIVE None of
      Some (Inr (s, sn)) \<Rightarrow> bodies s = [0, 1, 2] \<and> spreads s = [0, 1]
    | _ \<Rightarrow> False)"
  by code_simp

subsection \<open>Every operation keeps the entries\<close>

lemma seedBindings_True:
  "map_of ib n = Some True \<Longrightarrow> map_of (seedBindings ib xs) n = Some True"
proof (induction xs arbitrary: ib)
  case Nil
  then show ?case by simp
next
  case (Cons m xs)
  then have "map_of (if map_of ib m = None then ib @ [(m, False)] else ib) n = Some True"
    by (auto simp: map_add_def)
  from Cons.IH [OF this] show ?case by simp
qed

lemma addSetter_evolves: "evolves s (addSetter s i n locals st hasType p)"
proof (cases "entries s i")
  case None
  then show ?thesis by (simp add: addSetter_def evolves_refl)
next
  case (Some e)
  let ?st = "st\<lparr>last := INITIAL_VALUE, localNames := locals, parent := p,
                        stype := (if hasType then stype st else SETTER_TYPE_STATIC_IMPORT)\<rparr>"
  let ?old = "(case map_of (setters e) n of None \<Rightarrow> [] | Some l \<Rightarrow> l)"
  let ?s1 = "put_entry s i (e\<lparr>setters := assoc_set (setters e) n (?old @ [?st])\<rparr>)"
  have "kept e (e\<lparr>setters := assoc_set (setters e) n (?old @ [?st])\<rparr>)"
    by (rule kept_same) simp_all
  from evolves_put [OF Some this] have e1: "evolves s ?s1" .
  show ?thesis
  proof (cases "entries ?s1 p")
    case None
    with Some e1 show ?thesis by (simp add: addSetter_def Let_def)
  next
    case pe: (Some pe)
    have "kept pe (pe\<lparr>importedBindings := seedBindings (importedBindings pe) locals\<rparr>)"
      by (simp add: kept_def keysKept_def viewsInOrder_def seedBindings_True)
    from evolves_trans [OF e1 evolves_put [OF pe this]] Some pe show ?thesis
      by (simp add: addSetter_def Let_def)
  qed
qed

lemma kept_setRawView_sealed:
  assumes "readonlyView vw" and "namespaceFinalized e"
    and "sealedObj (rawView e vw) \<Longrightarrow> sealedObj ob \<and> ownKeys ob = ownKeys (rawView e vw)"
  shows "kept e (setRawView e vw ob)"
proof (cases vw)
  case Complete
  then show ?thesis
    using assms by (auto simp: kept_def keysKept_def viewsInOrder_def)
next
  case Partial
  then show ?thesis
    using assms by (auto simp: kept_def keysKept_def viewsInOrder_def)
qed (use assms(1) in \<open>simp_all add: readonlyView_def\<close>)

lemma immutable_defineProperty_kept:
  assumes "readonlyView vw" and "immutable_defineProperty frames e vw k d = Inr (b, e')"
  shows "kept e e'"
proof (cases "namespaceFinalized e \<and>
             \<not> (d_writable d = Some False \<and> d_value d = None \<and> has_own (rawView e vw) k) \<and>
             fst (obj_defineProperty (rawView e vw) k d)")
  case True
  then have e': "e' = setRawView e vw (snd (obj_defineProperty (rawView e vw) k d))"
    using assms(2)
    by (cases "obj_defineProperty (rawView e vw) k d")
       (auto simp: immutable_defineProperty_def Let_def)
  show ?thesis
    unfolding e'
    using True sealedObj_define by (intro kept_setRawView_sealed [OF assms(1)]) auto
next
  case False
  then have "e' = e"
    using assms(2)
    by (cases "obj_defineProperty (rawView e vw) k d")
       (auto simp: immutable_defineProperty_def Let_def split: if_splits)
  then show ?thesis by (simp add: kept_refl)
qed

lemma immutable_deleteProperty_kept:
  assumes "readonlyView vw" and "immutable_deleteProperty frames e vw k = Inr (b, e')"
  shows "kept e e'"
proof (cases "fst (obj_delete (rawView e vw) k)")
  case False
  then have "e' = e"
    using assms(2)
    by (cases "obj_delete (rawView e vw) k")
       (auto simp: immutable_deleteProperty_def split: if_splits)
  then show ?thesis by (simp add: kept_refl)
next
  case True
  then have e': "e' = setRawView e vw (snd (obj_delete (rawView e vw) k))"
    using assms(2)
    by (cases "obj_delete (rawView e vw) k") (auto simp: immutable_deleteProperty_def)
  show ?thesis
  proof (cases "namespaceFinalized e")
    case True
    show ?thesis
      unfolding e'
      using True sealedObj_delete by (intro kept_setRawView_sealed [OF assms(1)]) auto
  next
    case False
    have u: "untouched (rawView e vw) \<Longrightarrow> untouched (snd (obj_delete (rawView e vw) k))"
      by (rule untouched_delete)
    show ?thesis
      unfolding e' using False u
      by (cases vw) (auto simp: kept_def viewsInOrder_def)
  qed
qed

lemma immutable_set_kept:
  "immutable_set frames e vw k = Inr (b, e') \<Longrightarrow> kept e e'"
  by (auto simp: immutable_set_def kept_refl split: if_splits)

lemma common_preventExtensions_kept: "kept e (snd (common_preventExtensions e vw))"
proof (cases "namespaceFinalized e")
  case False
  then show ?thesis by (simp add: common_preventExtensions_def kept_refl)
next
  case True
  then show ?thesis
    by (cases vw)
       (auto simp: common_preventExtensions_def kept_def keysKept_def viewsInOrder_def
                   ownKeys_def sealedObj_def)
qed

lemma trapState_evolves:
  assumes "entries s i = Some e" and "\<And>b e'. r = Inr (b, e') \<Longrightarrow> kept e e'"
  shows "evolves s (trapState s i r)"
proof (cases r)
  case (Inl x)
  then show ?thesis by (simp add: trapState_def evolves_refl)
next
  case (Inr y)
  obtain b e' where y: "y = (b, e')" by (cases y)
  with Inr assms(2) have "kept e e'" by simp
  from evolves_put [OF assms(1) this] Inr y show ?thesis by (simp add: trapState_def)
qed

lemma exec_evolves: "evolves s (exec op s)"
proof (cases op)
  case (AddGetter i n g)
  show ?thesis
  proof (cases "entries s i")
    case None
    with AddGetter show ?thesis by (simp add: evolves_refl)
  next
    case (Some e)
    have "kept e (addGetter e n g)"
      using addGetter_fields [of e n g] kept_getters_ns by metis
    from evolves_put [OF Some this] Some AddGetter show ?thesis by simp
  qed
next
  case (AddSetter i n locals st hasType p)
  then show ?thesis by (simp add: addSetter_evolves)
next
  case (AssignExports i nms)
  show ?thesis
  proof (cases "entries s i")
    case None
    with AssignExports show ?thesis by (simp add: evolves_refl)
  next
    case (Some e)
    show ?thesis
    proof (cases "assignExportsToNamespace s e nms")
      case (Inl x)
      with Some AssignExports show ?thesis by (simp add: evolves_refl)
    next
      case (Inr e')
      from evolves_put [OF Some assignExportsToNamespace_kept [OF Inr]] Some Inr AssignExports
      show ?thesis by simp
    qed
  qed
next
  case (Finalize i)
  then show ?thesis using finalizeIn_follows [of s i] by (simp add: follows_def)
next
  case (Loaded i)
  then show ?thesis using loaded_follows [of s i] by (simp add: follows_def)
next
  case (UpdateBindings fuel i nms ut)
  show ?thesis
  proof (cases "updateBindings fuel s i nms ut None")
    case None
    with UpdateBindings show ?thesis by (simp add: evolves_refl)
  next
    case (Some r)
    from updateBindings_ok [OF Some] have "evolves s (stateOfUpdate r)"
      by (simp add: updateOk_def)
    with Some UpdateBindings show ?thesis
      by (auto simp: stateOfUpdate_def split: sum.splits prod.splits)
  qed
next
  case (DefineProperty frames i vw k d)
  show ?thesis
  proof (cases "entries s i")
    case None
    with DefineProperty show ?thesis by (simp add: evolves_refl)
  next
    case (Some e)
    show ?thesis
    proof (cases "readonlyView vw")
      case True
      from trapState_evolves [OF Some immutable_defineProperty_kept [OF True]] Some True
        DefineProperty
      show ?thesis by simp
    next
      case False
      with Some DefineProperty show ?thesis by (simp add: evolves_refl)
    qed
  qed
next
  case (DeleteProperty frames i vw k)
  show ?thesis
  proof (cases "entries s i")
    case None
    with DeleteProperty show ?thesis by (simp add: evolves_refl)
  next
    case (Some e)
    show ?thesis
    proof (cases "readonlyView vw")
      case True
      from trapState_evolves [OF Some immutable_deleteProperty_kept [OF True]] Some True
        DeleteProperty
      show ?thesis by simp
    next
      case False
      with Some DeleteProperty show ?thesis by (simp add: evolves_refl)
    qed
  qed
next
  case (SetProperty frames i vw k)
  show ?thesis
  proof (cases "entries s i")
    case None
    with SetProperty show ?thesis by (simp add: evolves_refl)
  next
    case (Some e)
    from trapState_evolves [OF Some immutable_set_kept] Some SetProperty
    show ?thesis by (simp add: evolves_refl)
  qed
next
  case (PreventExtensions i vw)
  show ?thesis
  proof (cases "entries s i")
    case None
    with PreventExtensions show ?thesis by (simp add: evolves_refl)
  next
    case (Some e)
    from evolves_put [OF Some common_preventExtensions_kept] Some PreventExtensions
    show ?thesis by simp
  qed
next
  case (UserObject r ob)
  then show ?thesis by (simp add: evolves_entries)
qed

lemma run_evolves: "evolves s (run ops s)"
  unfolding run_def
proof (induction ops arbitrary: s)
  case Nil
  then show ?case by (simp add: evolves_refl)
next
  case (Cons op ops)
  from evolves_trans [OF exec_evolves Cons] show ?case by simp
qed

subsection \<open>Imported bindings\<close>

lemma seedBindings_Some:
  "map_of ib m = Some v \<Longrightarrow> map_of (seedBindings ib xs) m = Some v"
proof (induction xs arbitrary: ib)
  case Nil
  then show ?case by simp
next
  case (Cons x xs)
  then have "map_of (if map_of ib x = None then ib @ [(x, False)] else ib) m = Some v"
    by (auto simp: map_add_def)
  from Cons.IH [OF this] show ?case by simp
qed

lemma callback_error:
  "last st = ERROR_GETTER \<Longrightarrow> entries (fst (callback b st s pm)) = entries s"
  by (auto simp: callback_def put_entry_def split: option.splits)

text \<open>
  C9. An imported binding of a Module Record that is \<open>true\<close> stays \<open>true\<close> through
  every run of operations of the engine. \<open>addSetter\<close> leaves every binding that is
  present as it is (it seeds \<open>false\<close> for absent names only), and the callback of
  \<open>updateBindings\<close> writes nothing when the value delivered was the error sentinel.
\<close>

theorem importedBindings_monotone:
  assumes "entries s p = Some e" and "map_of (importedBindings e) n = Some True"
  shows "(\<exists>e'. entries (run ops s) p = Some e' \<and> map_of (importedBindings e') n = Some True) \<and>
         (\<forall>m v. map_of (importedBindings e) m = Some v \<longrightarrow>
                 map_of (seedBindings (importedBindings e) locals) m = Some v) \<and>
         (last st = ERROR_GETTER \<longrightarrow> entries (fst (callback b st s pm)) = entries s)"
proof (intro conjI allI impI)
  from evolves_Some [OF run_evolves assms(1)] obtain e' where
    "entries (run ops s) p = Some e'" "kept e e'" by blast
  with assms(2) show "\<exists>e'. entries (run ops s) p = Some e' \<and>
      map_of (importedBindings e') n = Some True"
    by (auto simp: kept_def)
qed (simp_all add: seedBindings_Some callback_error)

text \<open>
  The chain after an update of its first entry has delivered \<open>x\<close> to the entry \<open>1\<close>:
  the binding \<open>x\<close> of the entry \<open>1\<close> is \<open>true\<close>, and is still \<open>true\<close> after
  another setter for \<open>x\<close> was added for the entry \<open>1\<close>, an update of kind \<open>init\<close>
  and \<open>loaded\<close>.
\<close>

theorem importedBindings_monotone_witness:
  "\<exists>e'. entries
          (run [AddSetter 0 ''x'' [''x''] (exampleSetter 7 1 ''x'') False 1,
                UpdateBindings 5 0 NamesUndefined UPDATE_TYPE_INIT, Loaded 1]
             (run [UpdateBindings 5 0 NamesUndefined UPDATE_TYPE_DEFAULT] chainState)) 1 = Some e' \<and>
        map_of (importedBindings e') ''x'' = Some True"
proof -
  let ?s = "run [UpdateBindings 5 0 NamesUndefined UPDATE_TYPE_DEFAULT] chainState"
  have "entries ?s 1 \<noteq> None" by code_simp
  then have e: "entries ?s 1 = Some (the (entries ?s 1))" by simp
  have t: "map_of (importedBindings (the (entries ?s 1))) ''x'' = Some True" by code_simp
  from importedBindings_monotone [OF e t] show ?thesis by blast
qed

subsection \<open>Sealed namespaces\<close>






subsection \<open>Export-star conflicts\<close>

lemma remove_nth_last: "l \<noteq> [] \<Longrightarrow> remove_nth (length l - 1) l = butlast l"
  by (induction l rule: rev_induct) (simp_all add: remove_nth_def)

lemma deref_put_setters:
  "entries s i = Some e \<Longrightarrow> deref (put_entry s i (e\<lparr>setters := x\<rparr>)) v = deref s v"
  by (auto simp: deref_def put_entry_def split: val.splits option.splits)

lemma read_prop_put_setters:
  "entries s i = Some e \<Longrightarrow>
   read_prop (put_entry s i (e\<lparr>setters := x\<rparr>)) v m = read_prop s v m"
proof -
  assume a: "entries s i = Some e"
  have h: "heap (put_entry s i (e\<lparr>setters := x\<rparr>)) = heap s" by (simp add: put_entry_def)
  show ?thesis
    by (simp add: read_prop_def deref_put_setters [OF a] h cong: option.case_cong)
qed

lemma namespace_read_put_setters:
  "entries s i = Some e \<Longrightarrow>
   namespace_read (put_entry s i (e\<lparr>setters := x\<rparr>)) (e\<lparr>setters := x\<rparr>) m =
   namespace_read s e m"
  by (simp add: namespace_read_def ns_read_def read_prop_put_setters split: option.splits slot.splits)

lemma tryGetter_put_setters:
  "entries s i = Some e \<Longrightarrow>
   tryGetter (put_entry s i (e\<lparr>setters := x\<rparr>)) (e\<lparr>setters := x\<rparr>) g = tryGetter s e g"
  by (cases g) (simp_all add: tryGetter_def namespace_read_put_setters)

lemma resolveExport_put_setters:
  "entries s i = Some e \<Longrightarrow>
   resolveExport b (put_entry s i (e\<lparr>setters := x\<rparr>)) (e\<lparr>setters := x\<rparr>) m pe =
   resolveExport b s e m pe"
  by (simp add: resolveExport_def getExportByName_def getExportByNameFast_def Let_def
      tryGetter_put_setters split: option.splits)

text \<open>
  C6 (amended). When the value resolved for the last registered setter of a name is the
  export-star-conflict sentinel, the setter pass for that name throws the conflict error
  for it, and the state the throw leaves differs only in that this one setter is removed
  from the list: the other setters of the name stay, so that the error is thrown once
  for every setter registered for the name, in as many propagations. When it was the
  only setter, the next setter pass for the name does not throw. What any name resolves
  to is the same after the throw as before.
\<close>

theorem runSetter_star_conflict:
  assumes "entries s i = Some e" and "map_of (setters e) n = Some l" and "l \<noteq> []"
    and "entries s (parent (l ! (length l - 1))) = Some pe"
    and "resolveExport (etype e = TYPE_ESM) s e n pe = ERROR_STAR"
  shows "runSetter s i n flag ut pm =
           Inl (ERR_EXPORT_STAR_CONFLICT i n,
                put_entry s i (e\<lparr>setters := assoc_set (setters e) n (butlast l)\<rparr>)) \<and>
         (butlast l = [] \<longrightarrow>
            runSetter (put_entry s i (e\<lparr>setters := assoc_set (setters e) n (butlast l)\<rparr>))
              i n flag ut pm =
            Inr (put_entry s i (e\<lparr>setters := assoc_set (setters e) n (butlast l)\<rparr>), pm)) \<and>
         (\<forall>b m pe'. resolveExport b
                      (put_entry s i (e\<lparr>setters := assoc_set (setters e) n (butlast l)\<rparr>))
                      (e\<lparr>setters := assoc_set (setters e) n (butlast l)\<rparr>) m pe' =
                    resolveExport b s e m pe')"
proof (intro conjI allI impI)
  obtain k where k: "length l = Suc k" using assms(3) by (cases l) auto
  have step: "runSetterStep k s i n (etype e = TYPE_ESM) (loaded_state e = LOAD_COMPLETED)
                (changed e) flag ut pm =
              Inl (ERR_EXPORT_STAR_CONFLICT i n,
                   put_entry s i (e\<lparr>setters := assoc_set (setters e) n (butlast l)\<rparr>))"
    using assms k remove_nth_last [OF assms(3)]
    by (simp add: runSetterStep_def Let_def)
  show "runSetter s i n flag ut pm =
           Inl (ERR_EXPORT_STAR_CONFLICT i n,
                put_entry s i (e\<lparr>setters := assoc_set (setters e) n (butlast l)\<rparr>))"
    using assms(1,2) k step by (simp add: runSetter_def)
next
  assume "butlast l = []"
  then show "runSetter (put_entry s i (e\<lparr>setters := assoc_set (setters e) n (butlast l)\<rparr>))
              i n flag ut pm =
            Inr (put_entry s i (e\<lparr>setters := assoc_set (setters e) n (butlast l)\<rparr>), pm)"
    by (simp add: runSetter_def put_entry_def map_of_assoc_set)
next
  fix b m pe'
  show "resolveExport b
          (put_entry s i (e\<lparr>setters := assoc_set (setters e) n (butlast l)\<rparr>))
          (e\<lparr>setters := assoc_set (setters e) n (butlast l)\<rparr>) m pe' =
        resolveExport b s e m pe'"
    by (rule resolveExport_put_setters [OF assms(1)])
qed

text \<open>
  One importer of \<open>foo\<close>: the setter pass throws and removes its setter, the next
  pass does not throw, and \<open>bar\<close> still resolves to \<open>3\<close>.
\<close>

theorem runSetter_star_conflict_witness:
  "runSetter (conflictState [exampleSetter 0 1 ''foo'']) 0 ''foo'' False UPDATE_TYPE_DEFAULT None =
     Inl (ERR_EXPORT_STAR_CONFLICT 0 ''foo'',
          put_entry (conflictState [exampleSetter 0 1 ''foo'']) 0
            ((conflictEntry [exampleSetter 0 1 ''foo''])
               \<lparr>setters := assoc_set (setters (conflictEntry [exampleSetter 0 1 ''foo''])) ''foo'' []\<rparr>)) \<and>
   runSetter
     (put_entry (conflictState [exampleSetter 0 1 ''foo'']) 0
        ((conflictEntry [exampleSetter 0 1 ''foo''])
           \<lparr>setters := assoc_set (setters (conflictEntry [exampleSetter 0 1 ''foo''])) ''foo'' []\<rparr>))
     0 ''foo'' False UPDATE_TYPE_DEFAULT None =
     Inr (put_entry (conflictState [exampleSetter 0 1 ''foo'']) 0
            ((conflictEntry [exampleSetter 0 1 ''foo''])
               \<lparr>setters := assoc_set (setters (conflictEntry [exampleSetter 0 1 ''foo''])) ''foo'' []\<rparr>),
          None) \<and>
   resolveExport True
     (put_entry (conflictState [exampleSetter 0 1 ''foo'']) 0
        ((conflictEntry [exampleSetter 0 1 ''foo''])
           \<lparr>setters := assoc_set (setters (conflictEntry [exampleSetter 0 1 ''foo''])) ''foo'' []\<rparr>))
     ((conflictEntry [exampleSetter 0 1 ''foo''])
        \<lparr>setters := assoc_set (setters (conflictEntry [exampleSetter 0 1 ''foo''])) ''foo'' []\<rparr>)
     ''bar'' (exampleEntry 1) = Num 3"
proof -
  let ?l = "[exampleSetter 0 1 ''foo'']"
  have 1: "entries (conflictState ?l) 0 = Some (conflictEntry ?l)"
    by (simp add: conflictState_def exampleState_def)
  have 2: "map_of (setters (conflictEntry ?l)) ''foo'' = Some ?l"
    by (simp add: conflictEntry_def)
  have 3: "?l \<noteq> []" by simp
  have 4: "entries (conflictState ?l) (parent (?l ! (length ?l - 1))) = Some (exampleEntry 1)"
    by (simp add: conflictState_def exampleState_def exampleSetter_def)
  have 5: "resolveExport (etype (conflictEntry ?l) = TYPE_ESM) (conflictState ?l)
             (conflictEntry ?l) ''foo'' (exampleEntry 1) = ERROR_STAR"
    by code_simp
  have 6: "resolveExport True (conflictState ?l) (conflictEntry ?l) ''bar'' (exampleEntry 1) = Num 3"
    by code_simp
  from runSetter_star_conflict [OF 1 2 3 4 5, of False UPDATE_TYPE_DEFAULT None] 6
  show ?thesis by simp
qed

text \<open>
  Two importers of \<open>foo\<close>: the first propagation throws the conflict error for
  \<open>foo\<close>, the second throws it again, and only the third returns.
\<close>

theorem star_conflict_twice_counterexample:
  "(case updateBindings 3
           (conflictState [exampleSetter 0 1 ''foo'', exampleSetter 1 2 ''foo''])
           0 NamesUndefined UPDATE_TYPE_DEFAULT None of
      Some (Inl (err1, s1)) \<Rightarrow>
        err1 = ERR_EXPORT_STAR_CONFLICT 0 ''foo'' \<and>
        (case updateBindings 3 s1 0 NamesUndefined UPDATE_TYPE_DEFAULT None of
           Some (Inl (err2, s2)) \<Rightarrow>
             err2 = ERR_EXPORT_STAR_CONFLICT 0 ''foo'' \<and>
             (case updateBindings 3 s2 0 NamesUndefined UPDATE_TYPE_DEFAULT None of
                Some (Inr x) \<Rightarrow> True
              | _ \<Rightarrow> False)
         | _ \<Rightarrow> False)
    | _ \<Rightarrow> False)"
  by code_simp

subsection \<open>Which setters a propagation calls\<close>

lemma settersPass_refl: "settersPass i N s s"
  unfolding settersPass_def
proof (intro conjI allI)
  fix j
  show "case entries s j of
          None \<Rightarrow> entries s j = None
        | Some e \<Rightarrow>
            (\<exists>ib l. entries s j = Some (e\<lparr>importedBindings := ib, setters := l\<rparr>) \<and>
                    (\<forall>m. j \<noteq> i \<or> m \<notin> N \<longrightarrow> map_of l m = map_of (setters e) m))"
  proof (cases "entries s j")
    case None
    then show ?thesis by simp
  next
    case (Some e)
    have "entries s j = Some (e\<lparr>importedBindings := importedBindings e, setters := setters e\<rparr>) \<and>
          (\<forall>m. j \<noteq> i \<or> m \<notin> N \<longrightarrow> map_of (setters e) m = map_of (setters e) m)"
      using Some by simp
    then have "\<exists>ib l. entries s j = Some (e\<lparr>importedBindings := ib, setters := l\<rparr>) \<and>
                    (\<forall>m. j \<noteq> i \<or> m \<notin> N \<longrightarrow> map_of l m = map_of (setters e) m)"
      by blast
    with Some show ?thesis by simp
  qed
qed simp

lemma settersPass_entry:
  assumes "settersPass i N s s'" and "entries s j = Some e"
  shows "\<exists>ib l. entries s' j = Some (e\<lparr>importedBindings := ib, setters := l\<rparr>) \<and>
                (\<forall>m. j \<noteq> i \<or> m \<notin> N \<longrightarrow> map_of l m = map_of (setters e) m)"
proof -
  from assms(1) have "case entries s j of
          None \<Rightarrow> entries s' j = None
        | Some e \<Rightarrow>
            (\<exists>ib l. entries s' j = Some (e\<lparr>importedBindings := ib, setters := l\<rparr>) \<and>
                    (\<forall>m. j \<noteq> i \<or> m \<notin> N \<longrightarrow> map_of l m = map_of (setters e) m))"
    unfolding settersPass_def by blast
  with assms(2) show ?thesis by simp
qed

lemma settersPass_None:
  assumes "settersPass i N s s'" and "entries s j = None"
  shows "entries s' j = None"
proof -
  from assms(1) have "case entries s j of
          None \<Rightarrow> entries s' j = None
        | Some e \<Rightarrow>
            (\<exists>ib l. entries s' j = Some (e\<lparr>importedBindings := ib, setters := l\<rparr>) \<and>
                    (\<forall>m. j \<noteq> i \<or> m \<notin> N \<longrightarrow> map_of l m = map_of (setters e) m))"
    unfolding settersPass_def by blast
  with assms(2) show ?thesis by simp
qed

lemma settersPassI:
  assumes "heap s' = heap s"
    and "\<And>j. entries s j = None \<Longrightarrow> entries s' j = None"
    and "\<And>j e. entries s j = Some e \<Longrightarrow>
           \<exists>ib l. entries s' j = Some (e\<lparr>importedBindings := ib, setters := l\<rparr>) \<and>
                  (\<forall>m. j \<noteq> i \<or> m \<notin> N \<longrightarrow> map_of l m = map_of (setters e) m)"
  shows "settersPass i N s s'"
  unfolding settersPass_def
proof (intro conjI allI)
  fix j
  show "case entries s j of
          None \<Rightarrow> entries s' j = None
        | Some e \<Rightarrow>
            (\<exists>ib l. entries s' j = Some (e\<lparr>importedBindings := ib, setters := l\<rparr>) \<and>
                    (\<forall>m. j \<noteq> i \<or> m \<notin> N \<longrightarrow> map_of l m = map_of (setters e) m))"
  proof (cases "entries s j")
    case None
    with assms(2) show ?thesis by simp
  next
    case (Some e)
    with assms(3) [OF Some] show ?thesis by simp
  qed
qed (rule assms(1))

lemma settersPass_heap: "settersPass i N s s' \<Longrightarrow> heap s' = heap s"
  by (simp add: settersPass_def)

lemma settersPass_trans:
  assumes "settersPass i N a b" and "settersPass i M b c"
  shows "settersPass i (N \<union> M) a c"
proof (rule settersPassI)
  show "heap c = heap a" using assms by (simp add: settersPass_heap)
next
  fix j assume "entries a j = None"
  with assms show "entries c j = None" by (auto dest: settersPass_None)
next
  fix j e assume Some: "entries a j = Some e"
  from settersPass_entry [OF assms(1) Some] obtain ib l where
    b: "entries b j = Some (e\<lparr>importedBindings := ib, setters := l\<rparr>)"
    and bl: "\<forall>m. j \<noteq> i \<or> m \<notin> N \<longrightarrow> map_of l m = map_of (setters e) m"
    by blast
  from settersPass_entry [OF assms(2) b] obtain ib' l' where
    c: "entries c j = Some (e\<lparr>importedBindings := ib, setters := l\<rparr>
                              \<lparr>importedBindings := ib', setters := l'\<rparr>)"
    and cl: "\<forall>m. j \<noteq> i \<or> m \<notin> M \<longrightarrow>
                 map_of l' m = map_of (setters (e\<lparr>importedBindings := ib, setters := l\<rparr>)) m"
    by blast
  from c have "entries c j = Some (e\<lparr>importedBindings := ib', setters := l'\<rparr>)" by simp
  moreover from bl cl have "\<forall>m. j \<noteq> i \<or> m \<notin> N \<union> M \<longrightarrow> map_of l' m = map_of (setters e) m"
    by auto
  ultimately show "\<exists>ib l. entries c j = Some (e\<lparr>importedBindings := ib, setters := l\<rparr>) \<and>
                  (\<forall>m. j \<noteq> i \<or> m \<notin> N \<union> M \<longrightarrow> map_of l m = map_of (setters e) m)"
    by blast
qed

lemma settersPass_mono:
  assumes "settersPass i N s s'" and "N \<subseteq> M"
  shows "settersPass i M s s'"
proof (rule settersPassI)
  show "heap s' = heap s" using assms by (simp add: settersPass_heap)
next
  fix j assume "entries s j = None"
  with assms show "entries s' j = None" by (auto dest: settersPass_None)
next
  fix j e assume Some: "entries s j = Some e"
  from settersPass_entry [OF assms(1) Some] obtain ib l where
    b: "entries s' j = Some (e\<lparr>importedBindings := ib, setters := l\<rparr>)"
    and bl: "\<forall>m. j \<noteq> i \<or> m \<notin> N \<longrightarrow> map_of l m = map_of (setters e) m"
    by blast
  from bl assms(2) have "\<forall>m. j \<noteq> i \<or> m \<notin> M \<longrightarrow> map_of l m = map_of (setters e) m"
    by auto
  with b show "\<exists>ib l. entries s' j = Some (e\<lparr>importedBindings := ib, setters := l\<rparr>) \<and>
                  (\<forall>m. j \<noteq> i \<or> m \<notin> M \<longrightarrow> map_of l m = map_of (setters e) m)"
    by blast
qed

lemma deref_pass:
  assumes "settersPass i N s s'"
  shows "deref s' v = deref s v"
proof (cases v)
  case (ExportsProxy j)
  show ?thesis
  proof (cases "entries s j")
    case None
    with settersPass_None [OF assms None] ExportsProxy show ?thesis by (simp add: deref_def)
  next
    case (Some e)
    with settersPass_entry [OF assms Some] ExportsProxy show ?thesis
      by (auto simp: deref_def)
  qed
qed (simp_all add: deref_def)

lemma read_prop_pass:
  "settersPass i N s s' \<Longrightarrow> read_prop s' v m = read_prop s v m"
  by (simp add: read_prop_def deref_pass settersPass_heap cong: option.case_cong)

lemma tryGetter_pass:
  assumes "settersPass i N s s'"
  shows "tryGetter s' (e\<lparr>importedBindings := ib, setters := l\<rparr>) g = tryGetter s e g"
  by (cases g)
     (simp_all add: tryGetter_def namespace_read_def ns_read_def read_prop_pass [OF assms]
        split: option.splits slot.splits)

lemma resolveExport_pass:
  assumes "settersPass i N s s'"
  shows "resolveExport b s' (e\<lparr>importedBindings := ib, setters := l\<rparr>) n
           (pe\<lparr>importedBindings := ib', setters := l'\<rparr>) =
         resolveExport b s e n pe"
  by (simp add: resolveExport_def getExportByName_def getExportByNameFast_def Let_def
      tryGetter_pass [OF assms] split: option.splits)

lemma callback_pass: "settersPass i N s (fst (callback b st s pm))"
proof (cases "entries s (parent st)")
  case None
  then show ?thesis by (simp add: callback_def settersPass_refl)
next
  case (Some pe)
  let ?ib = "if last st \<noteq> ERROR_GETTER
             then fold (\<lambda>n ib. assoc_set ib n True) (localNames st) (importedBindings pe)
             else importedBindings pe"
  have f: "fst (callback b st s pm) = put_entry s (parent st) (pe\<lparr>importedBindings := ?ib\<rparr>)"
    using Some by (simp add: callback_def Let_def)
  show ?thesis
    unfolding f
  proof (rule settersPassI)
    show "heap (put_entry s (parent st) (pe\<lparr>importedBindings := ?ib\<rparr>)) = heap s"
      by (simp add: put_entry_def)
  next
    fix j assume "entries s j = None"
    with Some show "entries (put_entry s (parent st) (pe\<lparr>importedBindings := ?ib\<rparr>)) j = None"
      by (auto simp: put_entry_def)
  next
    fix j e assume e: "entries s j = Some e"
    show "\<exists>ib l. entries (put_entry s (parent st) (pe\<lparr>importedBindings := ?ib\<rparr>)) j =
                    Some (e\<lparr>importedBindings := ib, setters := l\<rparr>) \<and>
                  (\<forall>m. j \<noteq> i \<or> m \<notin> N \<longrightarrow> map_of l m = map_of (setters e) m)"
    proof (cases "j = parent st")
      case True
      with e Some have "e = pe" by simp
      with True show ?thesis
        by (intro exI [of _ ?ib] exI [of _ "setters e"]) (simp add: put_entry_def)
    next
      case False
      with e show ?thesis
        by (intro exI [of _ "importedBindings e"] exI [of _ "setters e"]) (simp add: put_entry_def)
    qed
  qed
qed

lemma put_setters_pass:
  assumes "entries s i = Some e"
  shows "settersPass i {n} s ((put_entry s i (e\<lparr>setters := assoc_set (setters e) n x\<rparr>))\<lparr>trace := t\<rparr>)"
proof (rule settersPassI)
  show "heap ((put_entry s i (e\<lparr>setters := assoc_set (setters e) n x\<rparr>))\<lparr>trace := t\<rparr>) = heap s"
    by (simp add: put_entry_def)
next
  fix j assume "entries s j = None"
  with assms show "entries ((put_entry s i (e\<lparr>setters := assoc_set (setters e) n x\<rparr>))\<lparr>trace := t\<rparr>) j = None"
    by (auto simp: put_entry_def)
next
  fix j e' assume e: "entries s j = Some e'"
  show "\<exists>ib l. entries ((put_entry s i (e\<lparr>setters := assoc_set (setters e) n x\<rparr>))\<lparr>trace := t\<rparr>) j =
                  Some (e'\<lparr>importedBindings := ib, setters := l\<rparr>) \<and>
                (\<forall>m. j \<noteq> i \<or> m \<notin> {n} \<longrightarrow> map_of l m = map_of (setters e') m)"
  proof (cases "j = i")
    case True
    with e assms have "e' = e" by simp
    with True show ?thesis
      by (intro exI [of _ "importedBindings e"] exI [of _ "assoc_set (setters e) n x"])
         (simp add: put_entry_def map_of_assoc_set)
  next
    case False
    with e show ?thesis
      by (intro exI [of _ "importedBindings e'"] exI [of _ "setters e'"]) (simp add: put_entry_def)
  qed
qed

lemma fireSetter_pass:
  assumes "entries s i = Some e"
  shows "settersPass i {n} s (fst (fireSetter k s i e n l v a c ut flag pm))"
proof -
  let ?l = "(if result (l ! k) \<and> a \<and> stype (l ! k) = SETTER_TYPE_DYNAMIC_IMPORT
            then remove_nth k l else l[k := (l ! k)\<lparr>last := v\<rparr>])"
  let ?t = "trace s @ [\<lparr>c_setter = l ! k, c_value = v, c_exporter = i, c_name = n,
                      c_loaded = a, c_nsChanged = c, c_kind = ut\<rparr>]"
  let ?s1 = "(put_entry s i (e\<lparr>setters := assoc_set (setters e) n ?l\<rparr>))\<lparr>trace := ?t\<rparr>"
  have p1: "settersPass i {n} s ?s1" by (rule put_setters_pass [OF assms])
  have "settersPass i {} ?s1 (fst (callback flag ((l ! k)\<lparr>last := v\<rparr>) ?s1 pm))"
    by (rule callback_pass)
  from settersPass_trans [OF p1 this]
  have p2: "settersPass i {n} s (fst (callback flag ((l ! k)\<lparr>last := v\<rparr>) ?s1 pm))" by simp
  have f: "fst (fireSetter k s i e n l v a c ut flag pm) = ?s1 \<or>
           fst (fireSetter k s i e n l v a c ut flag pm) =
             fst (callback flag ((l ! k)\<lparr>last := v\<rparr>) ?s1 pm)"
    by (auto simp: fireSetter_def Let_def)
  from f p1 p2 show ?thesis by auto
qed

lemma callback_trace: "trace (fst (callback b st s pm)) = trace s"
  by (simp add: callback_def put_entry_def Let_def split: option.splits)

lemma fireSetter_trace:
  "trace (fst (fireSetter k s i e n l v a c ut flag pm)) =
   trace s @ [\<lparr>c_setter = l ! k, c_value = v, c_exporter = i, c_name = n,
               c_loaded = a, c_nsChanged = c, c_kind = ut\<rparr>]"
  by (simp add: fireSetter_def Let_def callback_trace put_entry_def)

lemma callback_setters:
  "entries s i = Some e \<Longrightarrow>
   \<exists>e'. entries (fst (callback b st s pm)) i = Some e' \<and> setters e' = setters e"
  by (auto simp: callback_def put_entry_def Let_def split: option.splits)

lemma fireSetter_last:
  assumes "entries s i = Some e"
  shows "\<exists>e'. entries (fst (fireSetter k s i e n l v a c ut flag pm)) i = Some e' \<and>
              map_of (setters e') n =
                Some (if result (l ! k) \<and> a \<and> stype (l ! k) = SETTER_TYPE_DYNAMIC_IMPORT
                      then remove_nth k l else l[k := (l ! k)\<lparr>last := v\<rparr>])"
proof -
  let ?l = "(if result (l ! k) \<and> a \<and> stype (l ! k) = SETTER_TYPE_DYNAMIC_IMPORT
            then remove_nth k l else l[k := (l ! k)\<lparr>last := v\<rparr>])"
  let ?t = "trace s @ [\<lparr>c_setter = l ! k, c_value = v, c_exporter = i, c_name = n,
                      c_loaded = a, c_nsChanged = c, c_kind = ut\<rparr>]"
  let ?s1 = "(put_entry s i (e\<lparr>setters := assoc_set (setters e) n ?l\<rparr>))\<lparr>trace := ?t\<rparr>"
  have e1: "entries ?s1 i = Some (e\<lparr>setters := assoc_set (setters e) n ?l\<rparr>)"
    by (simp add: put_entry_def)
  have m: "map_of (setters (e\<lparr>setters := assoc_set (setters e) n ?l\<rparr>)) n = Some ?l"
    by (simp add: map_of_assoc_set)
  from callback_setters [OF e1, of flag "(l ! k)\<lparr>last := v\<rparr>" pm] obtain e' where
    "entries (fst (callback flag ((l ! k)\<lparr>last := v\<rparr>) ?s1 pm)) i = Some e'"
    "setters e' = setters (e\<lparr>setters := assoc_set (setters e) n ?l\<rparr>)"
    by blast
  with m have c: "\<exists>e'. entries (fst (callback flag ((l ! k)\<lparr>last := v\<rparr>) ?s1 pm)) i = Some e' \<and>
      map_of (setters e') n = Some ?l"
    by auto
  have f: "fst (fireSetter k s i e n l v a c ut flag pm) = ?s1 \<or>
           fst (fireSetter k s i e n l v a c ut flag pm) =
             fst (callback flag ((l ! k)\<lparr>last := v\<rparr>) ?s1 pm)"
    by (auto simp: fireSetter_def Let_def)
  from f e1 m c show ?thesis by auto
qed


lemma setterFires_iff:
  "setterFires st v a c ut =
   calledForReason \<lparr>c_setter = st, c_value = v, c_exporter = i, c_name = n,
                    c_loaded = a, c_nsChanged = c, c_kind = ut\<rparr>"
  by (auto simp: setterFires_def calledForReason_def Let_def)

lemma runSetterStep_calls:
  assumes "entries s i = Some e" and "map_of (setters e) n = Some lc" and "k < length lc"
    and "entries s (parent (lc ! k)) = Some pe" and "resolveExport isESM s e n pe = v"
    and "v \<noteq> ERROR_STAR"
    and c: "c = \<lparr>c_setter = lc ! k, c_value = v, c_exporter = i, c_name = n,
                 c_loaded = isLoaded, c_nsChanged = isNsChanged, c_kind = ut\<rparr>"
  shows "\<exists>s' pm' e'.
           runSetterStep k s i n isESM isLoaded isNsChanged parents ut pm = Inr (s', pm') \<and>
           settersPass i {n} s s' \<and>
           trace s' = trace s @ (if calledForReason c then [c] else []) \<and>
           entries s' i = Some e' \<and>
           map_of (setters e') n =
             Some (if calledForReason c
                   then (if result (lc ! k) \<and> isLoaded \<and>
                            stype (lc ! k) = SETTER_TYPE_DYNAMIC_IMPORT
                         then remove_nth k lc else lc[k := (lc ! k)\<lparr>last := v\<rparr>])
                   else lc)"
proof (cases "calledForReason c")
  case False
  then have "\<not> setterFires (lc ! k) v isLoaded isNsChanged ut"
    unfolding c by (simp add: setterFires_iff [of _ _ _ _ _ i n])
  with assms(1-6) have "runSetterStep k s i n isESM isLoaded isNsChanged parents ut pm = Inr (s, pm)"
    by (simp add: runSetterStep_def Let_def)
  with False assms(1,2) show ?thesis by (simp add: settersPass_refl)
next
  case True
  then have "setterFires (lc ! k) v isLoaded isNsChanged ut"
    unfolding c by (simp add: setterFires_iff [of _ _ _ _ _ i n])
  with assms(1-6)
  have r: "runSetterStep k s i n isESM isLoaded isNsChanged parents ut pm =
           Inr (fireSetter k s i e n lc v isLoaded isNsChanged ut parents pm)"
    by (simp add: runSetterStep_def Let_def)
  obtain s' pm' where f: "fireSetter k s i e n lc v isLoaded isNsChanged ut parents pm = (s', pm')"
    by (cases "fireSetter k s i e n lc v isLoaded isNsChanged ut parents pm")
  from fireSetter_pass [OF assms(1), of n k lc v isLoaded isNsChanged ut parents pm] f
  have 1: "settersPass i {n} s s'" by simp
  from fireSetter_trace [of k s i e n lc v isLoaded isNsChanged ut parents pm] f
  have 2: "trace s' = trace s @ [c]" unfolding c by simp
  from fireSetter_last [OF assms(1), of k n lc v isLoaded isNsChanged ut parents pm] f
  obtain e' where 3: "entries s' i = Some e'"
    "map_of (setters e') n =
       Some (if result (lc ! k) \<and> isLoaded \<and> stype (lc ! k) = SETTER_TYPE_DYNAMIC_IMPORT
             then remove_nth k lc else lc[k := (lc ! k)\<lparr>last := v\<rparr>])"
    by auto
  from r f 1 2 3 True show ?thesis by simp
qed

lemma take_remove_nth: "k \<le> length l \<Longrightarrow> take k (remove_nth k l) = take k l"
  by (simp add: remove_nth_def)

lemma drop_remove_nth: "k \<le> length l \<Longrightarrow> drop k (remove_nth k l) = drop (Suc k) l"
  by (simp add: remove_nth_def)

lemma runSetterLoop_calls:
  assumes S: "entries S i = Some E"
    and ok: "\<forall>st\<in>set l. \<exists>pe. entries S (parent st) = Some pe \<and>
                             resolveExport isESM S E n pe \<noteq> ERROR_STAR"
    and mk: "mk = (\<lambda>st. \<lparr>c_setter = st,
                          c_value = resolveExport isESM S E n (the (entries S (parent st))),
                          c_exporter = i, c_name = n, c_loaded = isLoaded,
                          c_nsChanged = isNsChanged, c_kind = ut\<rparr>)"
  shows "settersPass i UNIV S s \<Longrightarrow> entries s i = Some e \<Longrightarrow> map_of (setters e) n = Some lc \<Longrightarrow>
         take k lc = take k l \<Longrightarrow> k \<le> length l \<Longrightarrow>
         \<exists>s' pm' e'.
           runSetterLoop k s i n isESM isLoaded isNsChanged parents ut pm = Inr (s', pm') \<and>
           settersPass i {n} s s' \<and>
           trace s' = trace s @ filter calledForReason (map mk (rev (take k l))) \<and>
           entries s' i = Some e' \<and>
           map_of (setters e') n =
             Some (map (\<lambda>st. if calledForReason (mk st) then st\<lparr>last := c_value (mk st)\<rparr> else st)
                     (filter (\<lambda>st. \<not> (result st \<and> isLoaded \<and>
                                       stype st = SETTER_TYPE_DYNAMIC_IMPORT))
                        (take k l)) @ drop k lc)"
proof (induction k arbitrary: s e lc pm)
  case 0
  then show ?case by (simp add: settersPass_refl)
next
  case (Suc k)
  let ?upd = "\<lambda>st. if calledForReason (mk st) then st\<lparr>last := c_value (mk st)\<rparr> else st"
  let ?keep = "\<lambda>st. \<not> (result st \<and> isLoaded \<and> stype st = SETTER_TYPE_DYNAMIC_IMPORT)"
  from Suc.prems(5) have kl: "k < length l" by simp
  from Suc.prems(4) have "length (take (Suc k) lc) = length (take (Suc k) l)" by simp
  with kl have klc: "k < length lc" by simp
  have "take (Suc k) lc ! k = take (Suc k) l ! k" using Suc.prems(4) by simp
  then have same: "lc ! k = l ! k" by simp
  have tk: "take k lc = take k l"
  proof -
    have "take k (take (Suc k) lc) = take k (take (Suc k) l)" using Suc.prems(4) by simp
    then show ?thesis by (simp add: min_def)
  qed
  from ok kl obtain pe where pe: "entries S (parent (l ! k)) = Some pe"
    "resolveExport isESM S E n pe \<noteq> ERROR_STAR"
    by (meson nth_mem)
  from settersPass_entry [OF Suc.prems(1) pe(1)] obtain ib ls where
    pe': "entries s (parent (l ! k)) = Some (pe\<lparr>importedBindings := ib, setters := ls\<rparr>)"
    by blast
  from settersPass_entry [OF Suc.prems(1) S] Suc.prems(2) obtain ib' ls' where
    e: "e = E\<lparr>importedBindings := ib', setters := ls'\<rparr>"
    by auto
  have v: "resolveExport isESM s e n (pe\<lparr>importedBindings := ib, setters := ls\<rparr>) =
           c_value (mk (l ! k))"
    unfolding e mk using resolveExport_pass [OF Suc.prems(1)] pe(1) by simp
  have vn: "c_value (mk (l ! k)) \<noteq> ERROR_STAR"
    unfolding mk using pe by simp
  have c: "mk (l ! k) = \<lparr>c_setter = lc ! k, c_value = c_value (mk (l ! k)), c_exporter = i,
                          c_name = n, c_loaded = isLoaded, c_nsChanged = isNsChanged,
                          c_kind = ut\<rparr>"
    unfolding mk same by simp
  from pe' same have pe'': "entries s (parent (lc ! k)) =
      Some (pe\<lparr>importedBindings := ib, setters := ls\<rparr>)" by simp
  from runSetterStep_calls [OF Suc.prems(2,3) klc pe'' v vn c, where parents = parents and pm = pm]
  obtain s1 pm1 e1 where
    step: "runSetterStep k s i n isESM isLoaded isNsChanged parents ut pm = Inr (s1, pm1)"
    and p1: "settersPass i {n} s s1"
    and t1: "trace s1 = trace s @ (if calledForReason (mk (l ! k)) then [mk (l ! k)] else [])"
    and e1: "entries s1 i = Some e1"
    and l1: "map_of (setters e1) n =
             Some (if calledForReason (mk (l ! k))
                   then (if result (lc ! k) \<and> isLoaded \<and>
                            stype (lc ! k) = SETTER_TYPE_DYNAMIC_IMPORT
                         then remove_nth k lc else lc[k := (lc ! k)\<lparr>last := c_value (mk (l ! k))\<rparr>])
                   else lc)"
    by blast
  let ?lc1 = "if calledForReason (mk (l ! k))
                   then (if result (lc ! k) \<and> isLoaded \<and>
                            stype (lc ! k) = SETTER_TYPE_DYNAMIC_IMPORT
                         then remove_nth k lc else lc[k := (lc ! k)\<lparr>last := c_value (mk (l ! k))\<rparr>])
                   else lc"
  have tk1: "take k ?lc1 = take k l"
    using tk klc by (simp add: take_remove_nth)
  have "settersPass i (UNIV \<union> {n}) S s1" by (rule settersPass_trans [OF Suc.prems(1) p1])
  then have pS: "settersPass i UNIV S s1" by simp
  from kl have kl': "k \<le> length l" by simp
  from Suc.IH [OF pS e1 l1 tk1 kl', of pm1] obtain s' pm' e' where
    loop: "runSetterLoop k s1 i n isESM isLoaded isNsChanged parents ut pm1 = Inr (s', pm')"
    and p2: "settersPass i {n} s1 s'"
    and t2: "trace s' = trace s1 @ filter calledForReason (map mk (rev (take k l)))"
    and e2: "entries s' i = Some e'"
    and l2: "map_of (setters e') n = Some (map ?upd (filter ?keep (take k l)) @ drop k ?lc1)"
    by blast
  have R: "runSetterLoop (Suc k) s i n isESM isLoaded isNsChanged parents ut pm = Inr (s', pm')"
    using step loop by simp
  have "settersPass i ({n} \<union> {n}) s s'" by (rule settersPass_trans [OF p1 p2])
  then have P: "settersPass i {n} s s'" by simp
  have tS: "take (Suc k) l = take k l @ [l ! k]"
    using kl by (rule take_Suc_conv_app_nth)
  have T: "trace s' = trace s @ filter calledForReason (map mk (rev (take (Suc k) l)))"
    unfolding t2 t1 tS by simp
  have fires_dyn: "calledForReason (mk (l ! k))"
    if "isLoaded" "stype (l ! k) = SETTER_TYPE_DYNAMIC_IMPORT"
    using that unfolding mk by (simp add: calledForReason_def)
  have dc: "drop k lc = l ! k # drop (Suc k) lc"
    using Cons_nth_drop_Suc [OF klc] same by simp
  have dk: "drop k ?lc1 = (if ?keep (l ! k) then [?upd (l ! k)] else []) @ drop (Suc k) lc"
  proof (cases "calledForReason (mk (l ! k))")
    case False
    with fires_dyn have "?keep (l ! k)" by blast
    with False dc show ?thesis by simp
  next
    case fired: True
    show ?thesis
    proof (cases "result (lc ! k) \<and> isLoaded \<and> stype (lc ! k) = SETTER_TYPE_DYNAMIC_IMPORT")
      case True
      with fired same klc show ?thesis by (simp add: drop_remove_nth)
    next
      case False
      have "lc[k := (lc ! k)\<lparr>last := c_value (mk (l ! k))\<rparr>] =
            take k lc @ (lc ! k)\<lparr>last := c_value (mk (l ! k))\<rparr> # drop (Suc k) lc"
        using klc by (rule upd_conv_take_nth_drop)
      then have "drop k (lc[k := (lc ! k)\<lparr>last := c_value (mk (l ! k))\<rparr>]) =
            (lc ! k)\<lparr>last := c_value (mk (l ! k))\<rparr> # drop (Suc k) lc"
        using klc by simp
      with False fired same show ?thesis by auto
    qed
  qed
  have L: "map_of (setters e') n = Some (map ?upd (filter ?keep (take (Suc k) l)) @ drop (Suc k) lc)"
    unfolding l2 tS dk by simp
  from R P T e2 L show ?case by blast
qed


lemma settersOf_pass:
  assumes "settersPass i D s s'" and "entries s i = Some e" and "entries s' i = Some e'"
    and "n \<notin> D"
  shows "settersOf e' n = settersOf e n"
proof -
  from settersPass_entry [OF assms(1,2)] assms(3,4) show ?thesis
    by (auto simp: settersOf_def)
qed

lemma runSetter_calls:
  assumes S: "entries S i = Some E"
    and pS: "settersPass i D S s" and nD: "n \<notin> D"
    and ok: "\<forall>st\<in>set (settersOf E n). \<exists>pe. entries S (parent st) = Some pe \<and>
               resolveExport (etype E = TYPE_ESM) S E n pe \<noteq> ERROR_STAR"
  shows "\<exists>s' pm' e'.
           runSetter s i n parents ut pm = Inr (s', pm') \<and>
           settersPass i {n} s s' \<and>
           trace s' = trace s @ filter calledForReason
                                  (map (callOf S E i n ut) (rev (settersOf E n))) \<and>
           entries s' i = Some e' \<and>
           settersOf e' n =
             map (\<lambda>st. if calledForReason (callOf S E i n ut st)
                        then st\<lparr>last := c_value (callOf S E i n ut st)\<rparr> else st)
               (filter (\<lambda>st. \<not> (result st \<and> loaded_state E = LOAD_COMPLETED \<and>
                                 stype st = SETTER_TYPE_DYNAMIC_IMPORT))
                  (settersOf E n))"
proof -
  from settersPass_entry [OF pS S] nD obtain ib ls where
    e: "entries s i = Some (E\<lparr>importedBindings := ib, setters := ls\<rparr>)"
    and ls: "map_of ls n = map_of (setters E) n"
    by blast
  let ?e = "E\<lparr>importedBindings := ib, setters := ls\<rparr>"
  show ?thesis
  proof (cases "map_of (setters E) n")
    case None
    with e ls have "runSetter s i n parents ut pm = Inr (s, pm)"
      by (simp add: runSetter_def)
    moreover from None ls have "settersOf E n = []" "settersOf ?e n = []"
      by (simp_all add: settersOf_def)
    ultimately show ?thesis using e by (simp add: settersPass_refl)
  next
    case (Some l)
    then have so: "settersOf E n = l" by (simp add: settersOf_def)
    from Some ls have le: "map_of (setters ?e) n = Some l" by simp
    have ok': "\<forall>st\<in>set l. \<exists>pe. entries S (parent st) = Some pe \<and>
                 resolveExport (etype E = TYPE_ESM) S E n pe \<noteq> ERROR_STAR"
      using ok so by simp
    have mk: "callOf S E i n ut =
              (\<lambda>st. \<lparr>c_setter = st,
                      c_value = resolveExport (etype E = TYPE_ESM) S E n
                                  (the (entries S (parent st))),
                      c_exporter = i, c_name = n, c_loaded = (loaded_state E = LOAD_COMPLETED),
                      c_nsChanged = changed E, c_kind = ut\<rparr>)"
      by (rule ext) (simp add: callOf_def)
    have pU: "settersPass i UNIV S s" by (rule settersPass_mono [OF pS]) simp
    from runSetterLoop_calls [OF S ok' mk pU e le, of "length l" parents pm]
    obtain s' pm' e' where
      loop: "runSetterLoop (length l) s i n (etype E = TYPE_ESM)
               (loaded_state E = LOAD_COMPLETED) (changed E) parents ut pm = Inr (s', pm')"
      and p: "settersPass i {n} s s'"
      and t: "trace s' = trace s @ filter calledForReason (map (callOf S E i n ut) (rev l))"
      and e': "entries s' i = Some e'"
      and l': "map_of (setters e') n =
             Some (map (\<lambda>st. if calledForReason (callOf S E i n ut st)
                             then st\<lparr>last := c_value (callOf S E i n ut st)\<rparr> else st)
                     (filter (\<lambda>st. \<not> (result st \<and> loaded_state E = LOAD_COMPLETED \<and>
                                       stype st = SETTER_TYPE_DYNAMIC_IMPORT)) l))"
      by auto
    have r: "runSetter s i n parents ut pm = Inr (s', pm')"
      using e le loop by (simp add: runSetter_def)
    from l' have "settersOf e' n =
             map (\<lambda>st. if calledForReason (callOf S E i n ut st)
                        then st\<lparr>last := c_value (callOf S E i n ut st)\<rparr> else st)
               (filter (\<lambda>st. \<not> (result st \<and> loaded_state E = LOAD_COMPLETED \<and>
                                 stype st = SETTER_TYPE_DYNAMIC_IMPORT)) l)"
      by (simp add: settersOf_def)
    with r p t e' so show ?thesis by blast
  qed
qed

lemma runSetterList_calls:
  assumes S: "entries S i = Some E"
  shows "settersPass i D S s \<Longrightarrow> distinct xs \<Longrightarrow> set xs \<inter> D = {} \<Longrightarrow>
         \<forall>n\<in>set xs. \<forall>st\<in>set (settersOf E n). \<exists>pe. entries S (parent st) = Some pe \<and>
               resolveExport (etype E = TYPE_ESM) S E n pe \<noteq> ERROR_STAR \<Longrightarrow>
         \<exists>s' pm' e'.
           runSetterList s i xs parents ut pm = Inr (s', pm') \<and>
           settersPass i (set xs) s s' \<and>
           trace s' = trace s @
             concat (map (\<lambda>n. filter calledForReason
                                 (map (callOf S E i n ut) (rev (settersOf E n)))) xs) \<and>
           entries s' i = Some e' \<and>
           (\<forall>n\<in>set xs.
              settersOf e' n =
                map (\<lambda>st. if calledForReason (callOf S E i n ut st)
                           then st\<lparr>last := c_value (callOf S E i n ut st)\<rparr> else st)
                  (filter (\<lambda>st. \<not> (result st \<and> loaded_state E = LOAD_COMPLETED \<and>
                                    stype st = SETTER_TYPE_DYNAMIC_IMPORT))
                     (settersOf E n)))"
proof (induction xs arbitrary: s D pm)
  case Nil
  from settersPass_entry [OF Nil(1) S] obtain e' where "entries s i = Some e'" by blast
  then show ?case by (simp add: settersPass_refl)
next
  case (Cons n xs)
  let ?after = "\<lambda>n. map (\<lambda>st. if calledForReason (callOf S E i n ut st)
                           then st\<lparr>last := c_value (callOf S E i n ut st)\<rparr> else st)
                  (filter (\<lambda>st. \<not> (result st \<and> loaded_state E = LOAD_COMPLETED \<and>
                                    stype st = SETTER_TYPE_DYNAMIC_IMPORT))
                     (settersOf E n))"
  from Cons.prems(3) have nD: "n \<notin> D" by auto
  from Cons.prems(4) have okn: "\<forall>st\<in>set (settersOf E n). \<exists>pe. entries S (parent st) = Some pe \<and>
               resolveExport (etype E = TYPE_ESM) S E n pe \<noteq> ERROR_STAR"
    by simp
  from runSetter_calls [OF S Cons.prems(1) nD okn, of parents ut pm] obtain s1 pm1 e1 where
    r1: "runSetter s i n parents ut pm = Inr (s1, pm1)"
    and p1: "settersPass i {n} s s1"
    and t1: "trace s1 = trace s @ filter calledForReason
                                  (map (callOf S E i n ut) (rev (settersOf E n)))"
    and e1: "entries s1 i = Some e1"
    and l1: "settersOf e1 n = ?after n"
    by blast
  have pS1: "settersPass i (insert n D) S s1"
    using settersPass_trans [OF Cons.prems(1) p1] by simp
  from Cons.prems(2) have dx: "distinct xs" and nx: "n \<notin> set xs" by simp_all
  from Cons.prems(3) nx have dj: "set xs \<inter> insert n D = {}" by auto
  from Cons.prems(4) have okx: "\<forall>m\<in>set xs. \<forall>st\<in>set (settersOf E m).
      \<exists>pe. entries S (parent st) = Some pe \<and>
           resolveExport (etype E = TYPE_ESM) S E m pe \<noteq> ERROR_STAR"
    by simp
  from Cons.IH [OF pS1 dx dj okx, of pm1] obtain s' pm' e' where
    r2: "runSetterList s1 i xs parents ut pm1 = Inr (s', pm')"
    and p2: "settersPass i (set xs) s1 s'"
    and t2: "trace s' = trace s1 @
             concat (map (\<lambda>n. filter calledForReason
                                 (map (callOf S E i n ut) (rev (settersOf E n)))) xs)"
    and e2: "entries s' i = Some e'"
    and l2: "\<forall>m\<in>set xs. settersOf e' m = ?after m"
    by blast
  have R: "runSetterList s i (n # xs) parents ut pm = Inr (s', pm')"
    using r1 r2 by simp
  have P: "settersPass i (set (n # xs)) s s'"
    using settersPass_trans [OF p1 p2] by simp
  have T: "trace s' = trace s @
             concat (map (\<lambda>n. filter calledForReason
                                 (map (callOf S E i n ut) (rev (settersOf E n)))) (n # xs))"
    unfolding t2 t1 by simp
  have "settersOf e' n = settersOf e1 n"
    by (rule settersOf_pass [OF p2 e1 e2 nx])
  with l1 l2 have L: "\<forall>m\<in>set (n # xs). settersOf e' m = ?after m" by simp
  from R P T e2 L show ?case by blast
qed

lemma runSetters_calls:
  assumes S: "entries S i = Some E"
    and "distinct (passNames E nms)"
    and "\<forall>n\<in>set (passNames E nms). \<forall>st\<in>set (settersOf E n).
           \<exists>pe. entries S (parent st) = Some pe \<and>
                resolveExport (etype E = TYPE_ESM) S E n pe \<noteq> ERROR_STAR"
  shows "\<exists>s' pm' e'.
           runSetters S i nms parents ut = Inr (s', pm') \<and>
           trace s' = trace S @
             concat (map (\<lambda>n. filter calledForReason
                                 (map (callOf S E i n ut) (rev (settersOf E n))))
                       (passNames E nms)) \<and>
           entries s' i = Some e' \<and>
           (\<forall>n\<in>set (passNames E nms).
              settersOf e' n =
                map (\<lambda>st. if calledForReason (callOf S E i n ut st)
                           then st\<lparr>last := c_value (callOf S E i n ut st)\<rparr> else st)
                  (filter (\<lambda>st. \<not> (result st \<and> loaded_state E = LOAD_COMPLETED \<and>
                                    stype st = SETTER_TYPE_DYNAMIC_IMPORT))
                     (settersOf E n)))"
proof -
  have r: "runSetters S i nms parents ut = runSetterList S i (passNames E nms) parents ut None"
    using S by (simp add: runSetters_def passNames_def split: names.splits)
  have p: "settersPass i {} S S" by (rule settersPass_refl)
  from runSetterList_calls [OF S p assms(2) _ assms(3), of parents ut None]
  show ?thesis unfolding r by blast
qed


lemma tracedOk_refl: "tracedOk ut i s s"
  by (simp add: tracedOk_def)

lemma tracedOk_same: "trace s' = trace s \<Longrightarrow> tracedOk ut i s s'"
  by (simp add: tracedOk_def)

lemma tracedOk_trans: "tracedOk ut i a b \<Longrightarrow> tracedOk ut i b c \<Longrightarrow> tracedOk ut i a c"
  unfolding tracedOk_def
proof -
  assume "\<exists>new. trace b = trace a @ new \<and> list_all (callOk ut i) new"
    and "\<exists>new. trace c = trace b @ new \<and> list_all (callOk ut i) new"
  then obtain n1 n2 where "trace b = trace a @ n1" "list_all (callOk ut i) n1"
    "trace c = trace b @ n2" "list_all (callOk ut i) n2" by blast
  then have "trace c = trace a @ (n1 @ n2) \<and> list_all (callOk ut i) (n1 @ n2)" by simp
  then show "\<exists>new. trace c = trace a @ new \<and> list_all (callOk ut i) new" by blast
qed

lemma callOk_parent: "callOk (parentUpdateType ut) p c \<Longrightarrow> callOk ut i c"
  by (auto simp: callOk_def parentUpdateType_def split: if_splits)

lemma tracedOk_parent: "tracedOk (parentUpdateType ut) p s s' \<Longrightarrow> tracedOk ut i s s'"
  unfolding tracedOk_def list_all_iff using callOk_parent by blast

lemma fireSetter_traced:
  assumes "setterFires (l ! k) v a c ut"
  shows "tracedOk ut i s (fst (fireSetter k s i e n l v a c ut flag pm))"
proof -
  let ?c = "\<lparr>c_setter = l ! k, c_value = v, c_exporter = i, c_name = n,
             c_loaded = a, c_nsChanged = c, c_kind = ut\<rparr>"
  from assms have "calledForReason ?c" by (simp add: setterFires_iff [of _ _ _ _ _ i n])
  then have "callOk ut i ?c" by (simp add: callOk_def)
  then show ?thesis
    unfolding tracedOk_def fireSetter_trace by simp
qed

lemma runSetterStep_traced:
  "tracedOk ut i s (stateOfPass (runSetterStep k s i n a b c flag ut pm))"
proof (cases "entries s i")
  case None
  then show ?thesis by (simp add: runSetterStep_def stateOfPass_simps tracedOk_refl)
next
  case (Some e)
  have f: "setterFires st v b c ut \<Longrightarrow>
           tracedOk ut i s (fst (fireSetter k s i e n l v b c ut flag pm))"
    if "st = l ! k" for st l v
    using that fireSetter_traced by blast
  have p: "tracedOk ut i s (put_entry s i x)" for x
    by (rule tracedOk_same) (simp add: put_entry_def)
  show ?thesis
    unfolding runSetterStep_def Let_def
    using Some f p
    by (auto split: option.splits simp: tracedOk_refl stateOfPass_simps)
qed

lemma runSetterLoop_traced:
  "tracedOk ut i s (stateOfPass (runSetterLoop k s i n a b c flag ut pm))"
proof (induction k arbitrary: s pm)
  case 0
  then show ?case by (simp add: stateOfPass_simps tracedOk_refl)
next
  case (Suc k)
  show ?case
  proof (cases "runSetterStep k s i n a b c flag ut pm")
    case (Inl x)
    with runSetterStep_traced [of ut i s k n a b c flag pm] show ?thesis by simp
  next
    case (Inr y)
    obtain s' pm' where y: "y = (s', pm')" by (cases y)
    with Inr runSetterStep_traced [of ut i s k n a b c flag pm] have "tracedOk ut i s s'"
      by (simp add: stateOfPass_simps)
    with Suc [of s' pm'] Inr y show ?thesis by (auto intro: tracedOk_trans)
  qed
qed

lemma runSetter_traced:
  "tracedOk ut i s (stateOfPass (runSetter s i n flag ut pm))"
  unfolding runSetter_def
  using runSetterLoop_traced
  by (auto split: option.splits simp: stateOfPass_simps tracedOk_refl)

lemma runSetterList_traced:
  "tracedOk ut i s (stateOfPass (runSetterList s i xs flag ut pm))"
proof (induction xs arbitrary: s pm)
  case Nil
  then show ?case by (simp add: stateOfPass_simps tracedOk_refl)
next
  case (Cons n xs)
  show ?case
  proof (cases "runSetter s i n flag ut pm")
    case (Inl x)
    with runSetter_traced [of ut i s n flag pm] show ?thesis by simp
  next
    case (Inr y)
    obtain s' pm' where y: "y = (s', pm')" by (cases y)
    with Inr runSetter_traced [of ut i s n flag pm] have "tracedOk ut i s s'"
      by (simp add: stateOfPass_simps)
    with Cons [of s' pm'] Inr y show ?thesis by (auto intro: tracedOk_trans)
  qed
qed

lemma runSetters_traced:
  "tracedOk ut i s (stateOfPass (runSetters s i nms flag ut))"
  unfolding runSetters_def
  using runSetterList_traced
  by (auto split: option.splits names.splits simp: stateOfPass_simps tracedOk_refl)

lemma follows_traced: "follows s s' \<Longrightarrow> tracedOk ut i s s'"
  by (simp add: follows_def tracedOk_same)

lemma forParents_traced:
  assumes step: "\<And>s p sn r. upd s p sn = Some r \<Longrightarrow> tracedOk ut i s (stateOfUpdate r)"
  shows "forParents upd ps s sn = Some r \<Longrightarrow> tracedOk ut i s (stateOfUpdate r)"
proof (induction ps arbitrary: s sn)
  case Nil
  then show ?case by (auto simp: stateOfUpdate_simps tracedOk_refl)
next
  case (Cons p ps)
  show ?case
  proof (cases "loaded s p")
    case (Inl x)
    obtain err s' where x: "x = (err, s')" by (cases x)
    with Inl loaded_follows [of s p] have "follows s s'" by (simp add: stateOf_simps)
    with Cons.prems Inl x show ?thesis
      by (auto simp: stateOfUpdate_simps intro: follows_traced)
  next
    case (Inr s1)
    with loaded_follows [of s p] have t1: "tracedOk ut i s s1"
      by (simp add: stateOf_simps follows_traced)
    show ?thesis
    proof (cases "upd s1 p sn")
      case None
      with Cons.prems Inr show ?thesis by simp
    next
      case (Some r1)
      note ok1 = step [OF Some]
      show ?thesis
      proof (cases r1)
        case (Inl x)
        with Cons.prems Inr Some have "r = r1" by simp
        with ok1 t1 show ?thesis by (auto intro: tracedOk_trans)
      next
        case r1: (Inr y)
        obtain s2 seen2 where y: "y = (s2, seen2)" by (cases y)
        from ok1 r1 y have t2: "tracedOk ut i s1 s2" by (simp add: stateOfUpdate_simps)
        from Cons.prems Inr Some r1 y
        have "forParents upd ps s2 (case seen2 of None \<Rightarrow> sn | Some x \<Rightarrow> x) = Some r" by simp
        from Cons.IH [OF this] t1 t2 show ?thesis by (blast intro: tracedOk_trans)
      qed
    qed
  qed
qed

lemma updateBindings_traced:
  "updateBindings fuel s i nms ut seen = Some r \<Longrightarrow> tracedOk ut i s (stateOfUpdate r)"
proof (induction fuel arbitrary: s i nms ut seen r)
  case 0
  then show ?case by simp
next
  case (Suc fuel)
  show ?case
  proof (cases "entries s i")
    case None
    with Suc.prems show ?thesis by (auto simp: stateOfUpdate_simps tracedOk_refl)
  next
    case (Some e)
    show ?thesis
    proof (cases "shouldUpdateParents e ut \<and> (case seen of None \<Rightarrow> False | Some sn \<Rightarrow> i \<in> sn)")
      case True
      with Suc.prems Some show ?thesis by (auto simp: stateOfUpdate_simps tracedOk_refl)
    next
      case guard: False
      let ?s0 = "(put_entry s i (e\<lparr>changed := False\<rparr>))\<lparr>bodies := bodies s @ [i]\<rparr>"
      have t0: "tracedOk ut i s ?s0" by (rule tracedOk_same) (simp add: put_entry_def)
      show ?thesis
      proof (cases "runGetters ?s0 i (normalizeNames nms)")
        case (Inl x)
        obtain err s' where x: "x = (err, s')" by (cases x)
        with Inl runGetters_follows [of ?s0 i "normalizeNames nms"] have "tracedOk ut i ?s0 s'"
          by (simp add: stateOf_simps follows_traced)
        with t0 have "tracedOk ut i s s'" by (rule tracedOk_trans)
        with Suc.prems Some guard Inl x show ?thesis
          by (auto simp: Let_def stateOfUpdate_simps)
      next
        case (Inr s1)
        with runGetters_follows [of ?s0 i "normalizeNames nms"] have "tracedOk ut i ?s0 s1"
          by (simp add: stateOf_simps follows_traced)
        with t0 have t1: "tracedOk ut i s s1" by (rule tracedOk_trans)
        let ?p = "runSetters s1 i (normalizeNames nms) (shouldUpdateParents e ut) ut"
        note tp = runSetters_traced [of ut i s1 "normalizeNames nms" "shouldUpdateParents e ut"]
        show ?thesis
        proof (cases ?p)
          case (Inl x)
          obtain err s' where x: "x = (err, s')" by (cases x)
          with Inl tp have "tracedOk ut i s1 s'" by (simp add: stateOfPass_simps)
          with t1 have "tracedOk ut i s s'" by (rule tracedOk_trans)
          with Suc.prems Some guard Inr Inl x show ?thesis
            by (auto simp: Let_def stateOfUpdate_simps)
        next
          case pass: (Inr y)
          obtain s2 pm where y: "y = (s2, pm)" by (cases y)
          with pass tp have "tracedOk ut i s1 s2" by (simp add: stateOfPass_simps)
          with t1 have t2: "tracedOk ut i s s2" by (rule tracedOk_trans)
          have "tracedOk ut i s2 (resetChanged s2 i)"
            using resetChanged_follows follows_traced by blast
          with t2 have t3: "tracedOk ut i s (resetChanged s2 i)" by (rule tracedOk_trans)
          show ?thesis
          proof (cases pm)
            case None
            with Suc.prems Some guard Inr pass y t3 show ?thesis
              by (auto simp: Let_def stateOfUpdate_simps)
          next
            case pending: (Some m)
            let ?s3 = "(resetChanged s2 i)\<lparr>spreads := spreads s2 @ [i]\<rparr>"
            let ?sn = "insert i (case seen of None \<Rightarrow> {} | Some sn \<Rightarrow> sn)"
            let ?upd = "\<lambda>s' p sn. updateBindings fuel s' p NamesNull (parentUpdateType ut) (Some sn)"
            from Suc.prems Some guard Inr pass y pending
            have fp: "forParents ?upd (map snd m) ?s3 ?sn = Some r"
              by (simp add: Let_def)
            have "tracedOk ut i ?s3 (stateOfUpdate r)"
              by (rule forParents_traced [OF _ fp]) (rule tracedOk_parent, rule Suc.IH)
            moreover have "tracedOk ut i (resetChanged s2 i) ?s3" by (rule tracedOk_same) simp
            ultimately show ?thesis using t3 by (blast intro: tracedOk_trans)
          qed
        qed
      qed
    qed
  qed
qed



lemma afterPass_traced:
  assumes "(case pm of
              None \<Rightarrow> Some (Inr (resetChanged s2 i, seen))
            | Some m \<Rightarrow>
                forParents
                  (\<lambda>s' p sn. updateBindings fuel s' p NamesNull (parentUpdateType ut) (Some sn))
                  (map snd m) ((resetChanged s2 i)\<lparr>spreads := spreads s2 @ [i]\<rparr>) sn0) = Some r"
  shows "tracedOk ut i s2 (stateOfUpdate r)"
proof -
  have t3: "tracedOk ut i s2 (resetChanged s2 i)"
    using resetChanged_follows follows_traced by blast
  show ?thesis
  proof (cases pm)
    case None
    with assms t3 show ?thesis by (auto simp: stateOfUpdate_simps)
  next
    case (Some m)
    let ?s3 = "(resetChanged s2 i)\<lparr>spreads := spreads s2 @ [i]\<rparr>"
    let ?upd = "\<lambda>s' p sn. updateBindings fuel s' p NamesNull (parentUpdateType ut) (Some sn)"
    from assms Some have fp: "forParents ?upd (map snd m) ?s3 sn0 = Some r" by simp
    have "tracedOk ut i ?s3 (stateOfUpdate r)"
      by (rule forParents_traced [OF _ fp]) (rule tracedOk_parent, rule updateBindings_traced)
    moreover have "tracedOk ut i (resetChanged s2 i) ?s3" by (rule tracedOk_same) simp
    ultimately show ?thesis using t3 by (blast intro: tracedOk_trans)
  qed
qed

lemma calls_unchanged:
  assumes "ut \<noteq> UPDATE_TYPE_INIT" and "\<not> changed e1"
    and "\<forall>st\<in>set l. stype st \<noteq> SETTER_TYPE_DYNAMIC_IMPORT \<longrightarrow>
                     last st = c_value (callOf s1 e1 i n ut st)"
  shows "filter calledForReason (map (callOf s1 e1 i n ut) (rev l)) =
         map (callOf s1 e1 i n ut)
           (filter (\<lambda>st. stype st = SETTER_TYPE_EXPORT_FROM \<or>
                         stype st = SETTER_TYPE_DYNAMIC_IMPORT \<and> loaded_state e1 = LOAD_COMPLETED)
              (rev l))"
proof -
  have "calledForReason (callOf s1 e1 i n ut st) =
        (stype st = SETTER_TYPE_EXPORT_FROM \<or>
         stype st = SETTER_TYPE_DYNAMIC_IMPORT \<and> loaded_state e1 = LOAD_COMPLETED)"
    if "st \<in> set (rev l)" for st
  proof -
    from that assms(3) have "stype st \<noteq> SETTER_TYPE_DYNAMIC_IMPORT \<longrightarrow>
        last st = c_value (callOf s1 e1 i n ut st)" by simp
    then show ?thesis
      using assms(1,2) by (auto simp: calledForReason_def callOf_def)
  qed
  then have "filter (calledForReason \<circ> callOf s1 e1 i n ut) (rev l) =
      filter (\<lambda>st. stype st = SETTER_TYPE_EXPORT_FROM \<or>
                         stype st = SETTER_TYPE_DYNAMIC_IMPORT \<and> loaded_state e1 = LOAD_COMPLETED)
              (rev l)"
    by (intro filter_cong) simp_all
  then show ?thesis by (simp add: filter_map)
qed

lemma last_after_call:
  assumes "st' \<in> set (map (\<lambda>st. if calledForReason (callOf s1 e1 i n ut st)
                           then st\<lparr>last := c_value (callOf s1 e1 i n ut st)\<rparr> else st)
                  (filter P l))"
    and "stype st' \<noteq> SETTER_TYPE_DYNAMIC_IMPORT"
  shows "last st' = c_value (callOf s1 e1 i n ut st')"
proof -
  from assms(1) obtain st where st: "st \<in> set l"
    and st': "st' = (if calledForReason (callOf s1 e1 i n ut st)
                     then st\<lparr>last := c_value (callOf s1 e1 i n ut st)\<rparr> else st)"
    by auto
  show ?thesis
  proof (cases "calledForReason (callOf s1 e1 i n ut st)")
    case True
    with st' show ?thesis by (simp add: callOf_def)
  next
    case False
    with st' have "st' = st" by simp
    with False assms(2) show ?thesis
      by (auto simp: calledForReason_def callOf_def)
  qed
qed

text \<open>
  C2 (amended). Every setter called in a call of \<open>updateBindings\<close>, by the record or
  by the parents the call goes on to, is called for a reason: it is not a dynamic-import
  setter and its resolved value differs from its \<open>lastObservedValue\<close>; or it is a
  dynamic-import setter and its exporter has completed loading; or it is an export-from
  setter; or it is a namespace setter and the flag \<open>_changed\<close> of its exporter is set,
  which \<open>updateBindings\<close> clears before the getter pass; or the update of its exporter
  is of kind \<open>init\<close>, which only the record the call started from can be.

  For the record itself more holds. Let its getter pass have returned, let the names of
  the setter pass be distinct, and let every setter under these names have an importer
  and a resolved value other than the export-star-conflict sentinel. Then the setter
  pass returns, and it has called exactly the setters with a reason, name by name and
  within a name last registered first. Afterwards the setters are those registered
  before, each one called with the resolved value as its \<open>lastObservedValue\<close>, but
  for the dynamic-import setters of a loaded record whose call returned a truthy value,
  which are removed; so every setter left that is not a dynamic-import setter has the
  resolved value as its \<open>lastObservedValue\<close>. A getter pass that leaves the state as
  it was leaves the flag \<open>_changed\<close> cleared. And when the kind is not \<open>init\<close>, the
  flag is clear and every setter that is not a dynamic-import setter has the resolved
  value as its \<open>lastObservedValue\<close>, as after an update with no export changed since,
  the setter pass calls exactly the export-from setters and, on a loaded record, the
  dynamic-import setters.
\<close>

theorem updateBindings_calls_for_reason:
  assumes "updateBindings fuel s i nms ut seen = Some r"
  shows "(\<exists>new. trace (stateOfUpdate r) = trace s @ new \<and> list_all (callOk ut i) new) \<and>
         (\<forall>e s1 e1.
            entries s i = Some e \<and>
            \<not> (shouldUpdateParents e ut \<and> (case seen of None \<Rightarrow> False | Some sn \<Rightarrow> i \<in> sn)) \<and>
            runGetters ((put_entry s i (e\<lparr>changed := False\<rparr>))\<lparr>bodies := bodies s @ [i]\<rparr>) i
              (normalizeNames nms) = Inr s1 \<and>
            entries s1 i = Some e1 \<and>
            distinct (passNames e1 (normalizeNames nms)) \<and>
            (\<forall>n\<in>set (passNames e1 (normalizeNames nms)). \<forall>st\<in>set (settersOf e1 n).
               \<exists>pe. entries s1 (parent st) = Some pe \<and>
                    resolveExport (etype e1 = TYPE_ESM) s1 e1 n pe \<noteq> ERROR_STAR)
            \<longrightarrow>
            (\<exists>s2 pm e2 rest.
               runSetters s1 i (normalizeNames nms) (shouldUpdateParents e ut) ut = Inr (s2, pm) \<and>
               trace s2 = trace s @
                 concat (map (\<lambda>n. filter calledForReason
                                     (map (callOf s1 e1 i n ut) (rev (settersOf e1 n))))
                           (passNames e1 (normalizeNames nms))) \<and>
               entries s2 i = Some e2 \<and>
               (\<forall>n\<in>set (passNames e1 (normalizeNames nms)).
                  settersOf e2 n =
                    map (\<lambda>st. if calledForReason (callOf s1 e1 i n ut st)
                               then st\<lparr>last := c_value (callOf s1 e1 i n ut st)\<rparr> else st)
                      (filter (\<lambda>st. \<not> (result st \<and> loaded_state e1 = LOAD_COMPLETED \<and>
                                        stype st = SETTER_TYPE_DYNAMIC_IMPORT))
                         (settersOf e1 n))) \<and>
               (\<forall>n\<in>set (passNames e1 (normalizeNames nms)). \<forall>st\<in>set (settersOf e2 n).
                  stype st \<noteq> SETTER_TYPE_DYNAMIC_IMPORT \<longrightarrow>
                  last st = c_value (callOf s1 e1 i n ut st)) \<and>
               trace (stateOfUpdate r) = trace s2 @ rest \<and> list_all (callOk ut i) rest \<and>
               (s1 = (put_entry s i (e\<lparr>changed := False\<rparr>))\<lparr>bodies := bodies s @ [i]\<rparr> \<longrightarrow>
                  \<not> changed e1) \<and>
               (ut \<noteq> UPDATE_TYPE_INIT \<and> \<not> changed e1 \<and>
                (\<forall>n\<in>set (passNames e1 (normalizeNames nms)). \<forall>st\<in>set (settersOf e1 n).
                   stype st \<noteq> SETTER_TYPE_DYNAMIC_IMPORT \<longrightarrow>
                   last st = c_value (callOf s1 e1 i n ut st)) \<longrightarrow>
                trace s2 = trace s @
                  concat (map (\<lambda>n. map (callOf s1 e1 i n ut)
                                     (filter (\<lambda>st. stype st = SETTER_TYPE_EXPORT_FROM \<or>
                                                   stype st = SETTER_TYPE_DYNAMIC_IMPORT \<and>
                                                   loaded_state e1 = LOAD_COMPLETED)
                                        (rev (settersOf e1 n))))
                            (passNames e1 (normalizeNames nms))))))"
proof (intro conjI allI impI)
  from updateBindings_traced [OF assms]
  show "\<exists>new. trace (stateOfUpdate r) = trace s @ new \<and> list_all (callOk ut i) new"
    by (simp add: tracedOk_def)
next
  fix e s1 e1
  let ?s0 = "(put_entry s i (e\<lparr>changed := False\<rparr>))\<lparr>bodies := bodies s @ [i]\<rparr>"
  let ?names = "passNames e1 (normalizeNames nms)"
  let ?own = "\<lambda>n. filter calledForReason (map (callOf s1 e1 i n ut) (rev (settersOf e1 n)))"
  let ?after = "\<lambda>n. map (\<lambda>st. if calledForReason (callOf s1 e1 i n ut st)
                               then st\<lparr>last := c_value (callOf s1 e1 i n ut st)\<rparr> else st)
                      (filter (\<lambda>st. \<not> (result st \<and> loaded_state e1 = LOAD_COMPLETED \<and>
                                        stype st = SETTER_TYPE_DYNAMIC_IMPORT))
                         (settersOf e1 n))"
  assume H: "entries s i = Some e \<and>
            \<not> (shouldUpdateParents e ut \<and> (case seen of None \<Rightarrow> False | Some sn \<Rightarrow> i \<in> sn)) \<and>
            runGetters ?s0 i (normalizeNames nms) = Inr s1 \<and>
            entries s1 i = Some e1 \<and>
            distinct ?names \<and>
            (\<forall>n\<in>set ?names. \<forall>st\<in>set (settersOf e1 n).
               \<exists>pe. entries s1 (parent st) = Some pe \<and>
                    resolveExport (etype e1 = TYPE_ESM) s1 e1 n pe \<noteq> ERROR_STAR)"
  then have e: "entries s i = Some e"
    and guard: "\<not> (shouldUpdateParents e ut \<and> (case seen of None \<Rightarrow> False | Some sn \<Rightarrow> i \<in> sn))"
    and g: "runGetters ?s0 i (normalizeNames nms) = Inr s1"
    and e1: "entries s1 i = Some e1"
    and d: "distinct ?names"
    and ok: "\<forall>n\<in>set ?names. \<forall>st\<in>set (settersOf e1 n).
               \<exists>pe. entries s1 (parent st) = Some pe \<and>
                    resolveExport (etype e1 = TYPE_ESM) s1 e1 n pe \<noteq> ERROR_STAR"
    by blast+
  from assms obtain f where f: "fuel = Suc f" by (cases fuel) auto
  from g runGetters_follows [of ?s0 i "normalizeNames nms"] have "trace s1 = trace ?s0"
    by (simp add: stateOf_simps follows_def)
  then have ts1: "trace s1 = trace s" by (simp add: put_entry_def)
  from runSetters_calls [OF e1 d ok, of "shouldUpdateParents e ut" ut] obtain s2 pm e2 where
    rs: "runSetters s1 i (normalizeNames nms) (shouldUpdateParents e ut) ut = Inr (s2, pm)"
    and t2: "trace s2 = trace s1 @ concat (map ?own ?names)"
    and e2: "entries s2 i = Some e2"
    and l2: "\<forall>n\<in>set ?names. settersOf e2 n = ?after n"
    by blast
  from assms e guard g rs
  have "(case pm of
              None \<Rightarrow> Some (Inr (resetChanged s2 i, seen))
            | Some m \<Rightarrow>
                forParents
                  (\<lambda>s' p sn. updateBindings f s' p NamesNull (parentUpdateType ut) (Some sn))
                  (map snd m) ((resetChanged s2 i)\<lparr>spreads := spreads s2 @ [i]\<rparr>)
                  (insert i (case seen of None \<Rightarrow> {} | Some sn \<Rightarrow> sn))) = Some r"
    unfolding f by (simp add: Let_def)
  from afterPass_traced [OF this] obtain rest where
    rest: "trace (stateOfUpdate r) = trace s2 @ rest" "list_all (callOk ut i) rest"
    unfolding tracedOk_def by blast
  have T: "trace s2 = trace s @ concat (map ?own ?names)"
    using t2 ts1 by simp
  have La: "\<forall>n\<in>set ?names. \<forall>st\<in>set (settersOf e2 n).
                  stype st \<noteq> SETTER_TYPE_DYNAMIC_IMPORT \<longrightarrow>
                  last st = c_value (callOf s1 e1 i n ut st)"
  proof (intro ballI impI)
    fix n st
    assume n: "n \<in> set ?names" and st: "st \<in> set (settersOf e2 n)"
      and nd: "stype st \<noteq> SETTER_TYPE_DYNAMIC_IMPORT"
    from l2 n st have "st \<in> set (?after n)" by simp
    then show "last st = c_value (callOf s1 e1 i n ut st)"
      using nd by (rule last_after_call)
  qed
  have C: "s1 = ?s0 \<longrightarrow> \<not> changed e1"
  proof
    assume "s1 = ?s0"
    with e1 have "e1 = e\<lparr>changed := False\<rparr>" by (simp add: put_entry_def)
    then show "\<not> changed e1" by simp
  qed
  have U: "ut \<noteq> UPDATE_TYPE_INIT \<and> \<not> changed e1 \<and>
                (\<forall>n\<in>set ?names. \<forall>st\<in>set (settersOf e1 n).
                   stype st \<noteq> SETTER_TYPE_DYNAMIC_IMPORT \<longrightarrow>
                   last st = c_value (callOf s1 e1 i n ut st)) \<longrightarrow>
                trace s2 = trace s @
                  concat (map (\<lambda>n. map (callOf s1 e1 i n ut)
                                     (filter (\<lambda>st. stype st = SETTER_TYPE_EXPORT_FROM \<or>
                                                   stype st = SETTER_TYPE_DYNAMIC_IMPORT \<and>
                                                   loaded_state e1 = LOAD_COMPLETED)
                                        (rev (settersOf e1 n))))
                            ?names)"
  proof
    assume a: "ut \<noteq> UPDATE_TYPE_INIT \<and> \<not> changed e1 \<and>
                (\<forall>n\<in>set ?names. \<forall>st\<in>set (settersOf e1 n).
                   stype st \<noteq> SETTER_TYPE_DYNAMIC_IMPORT \<longrightarrow>
                   last st = c_value (callOf s1 e1 i n ut st))"
    have "map ?own ?names =
          map (\<lambda>n. map (callOf s1 e1 i n ut)
                                     (filter (\<lambda>st. stype st = SETTER_TYPE_EXPORT_FROM \<or>
                                                   stype st = SETTER_TYPE_DYNAMIC_IMPORT \<and>
                                                   loaded_state e1 = LOAD_COMPLETED)
                                        (rev (settersOf e1 n)))) ?names"
    proof (rule map_cong [OF refl])
      fix n assume "n \<in> set ?names"
      with a have "\<forall>st\<in>set (settersOf e1 n). stype st \<noteq> SETTER_TYPE_DYNAMIC_IMPORT \<longrightarrow>
                     last st = c_value (callOf s1 e1 i n ut st)" by blast
      with a show "?own n = map (callOf s1 e1 i n ut)
                                     (filter (\<lambda>st. stype st = SETTER_TYPE_EXPORT_FROM \<or>
                                                   stype st = SETTER_TYPE_DYNAMIC_IMPORT \<and>
                                                   loaded_state e1 = LOAD_COMPLETED)
                                        (rev (settersOf e1 n)))"
        by (intro calls_unchanged) simp_all
    qed
    with T show "trace s2 = trace s @
                  concat (map (\<lambda>n. map (callOf s1 e1 i n ut)
                                     (filter (\<lambda>st. stype st = SETTER_TYPE_EXPORT_FROM \<or>
                                                   stype st = SETTER_TYPE_DYNAMIC_IMPORT \<and>
                                                   loaded_state e1 = LOAD_COMPLETED)
                                        (rev (settersOf e1 n))))
                            ?names)"
      by simp
  qed
  show "\<exists>s2 pm e2 rest.
               runSetters s1 i (normalizeNames nms) (shouldUpdateParents e ut) ut = Inr (s2, pm) \<and>
               trace s2 = trace s @ concat (map ?own ?names) \<and>
               entries s2 i = Some e2 \<and>
               (\<forall>n\<in>set ?names. settersOf e2 n = ?after n) \<and>
               (\<forall>n\<in>set ?names. \<forall>st\<in>set (settersOf e2 n).
                  stype st \<noteq> SETTER_TYPE_DYNAMIC_IMPORT \<longrightarrow>
                  last st = c_value (callOf s1 e1 i n ut st)) \<and>
               trace (stateOfUpdate r) = trace s2 @ rest \<and> list_all (callOk ut i) rest \<and>
               (s1 = ?s0 \<longrightarrow> \<not> changed e1) \<and>
               (ut \<noteq> UPDATE_TYPE_INIT \<and> \<not> changed e1 \<and>
                (\<forall>n\<in>set ?names. \<forall>st\<in>set (settersOf e1 n).
                   stype st \<noteq> SETTER_TYPE_DYNAMIC_IMPORT \<longrightarrow>
                   last st = c_value (callOf s1 e1 i n ut st)) \<longrightarrow>
                trace s2 = trace s @
                  concat (map (\<lambda>n. map (callOf s1 e1 i n ut)
                                     (filter (\<lambda>st. stype st = SETTER_TYPE_EXPORT_FROM \<or>
                                                   stype st = SETTER_TYPE_DYNAMIC_IMPORT \<and>
                                                   loaded_state e1 = LOAD_COMPLETED)
                                        (rev (settersOf e1 n))))
                            ?names))"
    using rs T e2 l2 La rest C U by blast
qed


text \<open>
  The entry \<open>0\<close> exports \<open>x\<close> through a static-import setter and an export-from
  setter. A first update calls both, the one registered last first. A second update in
  a row calls the export-from setter again, with the value that is its
  \<open>lastObservedValue\<close>, and not the static-import setter.
\<close>

theorem updateBindings_calls_for_reason_witness:
  "map (\<lambda>c. (sid (c_setter c), last (c_setter c), c_value c)) (trace twoSetterAfter) =
     [(1, INITIAL_VALUE, Num 1), (0, INITIAL_VALUE, Num 1)] \<and>
   (\<exists>new. trace (stateOfUpdate
                   (the (updateBindings 3 twoSetterAfter 0 NamesUndefined
                           UPDATE_TYPE_DEFAULT None))) = trace twoSetterAfter @ new \<and>
          list_all (callOk UPDATE_TYPE_DEFAULT 0) new) \<and>
   (\<exists>s2 pm. runSetters twoSetterGetters 0 NamesUndefined False UPDATE_TYPE_DEFAULT =
               Inr (s2, pm) \<and>
            map (\<lambda>c. (sid (c_setter c), last (c_setter c), c_value c)) (trace s2) =
              [(1, INITIAL_VALUE, Num 1), (0, INITIAL_VALUE, Num 1), (1, Num 1, Num 1)])"
proof -
  let ?S = "twoSetterAfter"
  let ?e = "the (entries ?S 0)"
  let ?s0 = "(put_entry ?S 0 (?e\<lparr>changed := False\<rparr>))\<lparr>bodies := bodies ?S @ [0]\<rparr>"
  let ?s1 = "twoSetterGetters"
  let ?e1 = "the (entries ?s1 0)"
  let ?u = "updateBindings 3 ?S 0 NamesUndefined UPDATE_TYPE_DEFAULT None"
  let ?names = "passNames ?e1 (normalizeNames NamesUndefined)"
  let ?proj = "\<lambda>c. (sid (c_setter c), last (c_setter c), c_value c)"
  have nn: "normalizeNames NamesUndefined = NamesUndefined" by (simp add: normalizeNames_def)
  have first: "map ?proj (trace ?S) = [(1, INITIAL_VALUE, Num 1), (0, INITIAL_VALUE, Num 1)]"
    by code_simp
  have "?u \<noteq> None" by code_simp
  then have u: "?u = Some (the ?u)" by simp
  have "entries ?S 0 \<noteq> None" by code_simp
  then have h1: "entries ?S 0 = Some ?e" by simp
  have h2: "\<not> (shouldUpdateParents ?e UPDATE_TYPE_DEFAULT \<and>
               (case None :: nat set option of None \<Rightarrow> False | Some sn \<Rightarrow> 0 \<in> sn))"
    by simp
  have "\<not> isl (runGetters ?s0 0 NamesUndefined)" by code_simp
  then have "runGetters ?s0 0 NamesUndefined = Inr (projr (runGetters ?s0 0 NamesUndefined))"
    by (rule sum_Inr_projr)
  then have h3: "runGetters ?s0 0 (normalizeNames NamesUndefined) = Inr ?s1"
    unfolding nn twoSetterGetters_def .
  have "entries ?s1 0 \<noteq> None" by code_simp
  then have h4: "entries ?s1 0 = Some ?e1" by simp
  have h5: "distinct ?names" by code_simp
  have ex: "\<forall>n\<in>set ?names. \<forall>st\<in>set (settersOf ?e1 n).
              entries ?s1 (parent st) \<noteq> None \<and>
              resolveExport (etype ?e1 = TYPE_ESM) ?s1 ?e1 n (the (entries ?s1 (parent st))) \<noteq>
                ERROR_STAR"
    by code_simp
  have h6: "\<forall>n\<in>set ?names. \<forall>st\<in>set (settersOf ?e1 n).
              \<exists>pe. entries ?s1 (parent st) = Some pe \<and>
                   resolveExport (etype ?e1 = TYPE_ESM) ?s1 ?e1 n pe \<noteq> ERROR_STAR"
  proof (intro ballI)
    fix n st assume "n \<in> set ?names" "st \<in> set (settersOf ?e1 n)"
    with ex have "entries ?s1 (parent st) \<noteq> None \<and>
              resolveExport (etype ?e1 = TYPE_ESM) ?s1 ?e1 n (the (entries ?s1 (parent st))) \<noteq>
                ERROR_STAR" by blast
    then show "\<exists>pe. entries ?s1 (parent st) = Some pe \<and>
                   resolveExport (etype ?e1 = TYPE_ESM) ?s1 ?e1 n pe \<noteq> ERROR_STAR"
      by auto
  qed
  note T = updateBindings_calls_for_reason [OF u]
  from T have A: "\<exists>new. trace (stateOfUpdate (the ?u)) = trace ?S @ new \<and>
      list_all (callOk UPDATE_TYPE_DEFAULT 0) new"
    by (rule conjunct1)
  from T [THEN conjunct2, rule_format, of ?e ?s1 ?e1] h1 h2 h3 h4 h5 h6
  obtain s2 pm where
    rs: "runSetters ?s1 0 (normalizeNames NamesUndefined)
           (shouldUpdateParents ?e UPDATE_TYPE_DEFAULT) UPDATE_TYPE_DEFAULT = Inr (s2, pm)"
    and t2: "trace s2 = trace ?S @
                 concat (map (\<lambda>n. filter calledForReason
                                     (map (callOf ?s1 ?e1 0 n UPDATE_TYPE_DEFAULT)
                                        (rev (settersOf ?e1 n))))
                           ?names)"
    by blast
  have sh: "shouldUpdateParents ?e UPDATE_TYPE_DEFAULT = False" by code_simp
  from rs have rs': "runSetters ?s1 0 NamesUndefined False UPDATE_TYPE_DEFAULT = Inr (s2, pm)"
    unfolding nn sh .
  have "map ?proj (trace ?S @
                 concat (map (\<lambda>n. filter calledForReason
                                     (map (callOf ?s1 ?e1 0 n UPDATE_TYPE_DEFAULT)
                                        (rev (settersOf ?e1 n))))
                           ?names)) =
        [(1, INITIAL_VALUE, Num 1), (0, INITIAL_VALUE, Num 1), (1, Num 1, Num 1)]"
    by code_simp
  with t2 have fin: "map ?proj (trace s2) =
      [(1, INITIAL_VALUE, Num 1), (0, INITIAL_VALUE, Num 1), (1, Num 1, Num 1)]"
    by simp
  from rs' fin have B: "\<exists>s2 pm. runSetters ?s1 0 NamesUndefined False UPDATE_TYPE_DEFAULT =
               Inr (s2, pm) \<and>
            map ?proj (trace s2) =
              [(1, INITIAL_VALUE, Num 1), (0, INITIAL_VALUE, Num 1), (1, Num 1, Num 1)]"
    by (intro exI [of _ s2] exI [of _ pm] conjI)
  show ?thesis by (rule conjI [OF first conjI [OF A B]])
qed

text \<open>
  With the export \<open>x\<close> unchanged, a second update in a row calls an export-from setter
  again, with the value that is already its \<open>lastObservedValue\<close>. On a record that has
  completed loading, both updates call a dynamic-import setter whose call returns a
  falsy value, and the setter stays registered. And an update of kind \<open>init\<close> after
  an update calls a static-import setter again with the same value.
\<close>

theorem setters_refire_counterexample:
  "map (\<lambda>c. (stype (c_setter c), last (c_setter c), c_value c, c_kind c))
     (trace (run [UpdateBindings 3 0 NamesUndefined UPDATE_TYPE_DEFAULT,
                  UpdateBindings 3 0 NamesUndefined UPDATE_TYPE_DEFAULT]
               (oneSetterState SETTER_TYPE_EXPORT_FROM))) =
     [(SETTER_TYPE_EXPORT_FROM, INITIAL_VALUE, Num 1, UPDATE_TYPE_DEFAULT),
      (SETTER_TYPE_EXPORT_FROM, Num 1, Num 1, UPDATE_TYPE_DEFAULT)] \<and>
   map (\<lambda>c. (stype (c_setter c), last (c_setter c), c_value c, c_kind c))
     (trace (run [Loaded 0,
                  UpdateBindings 3 0 NamesUndefined UPDATE_TYPE_DEFAULT,
                  UpdateBindings 3 0 NamesUndefined UPDATE_TYPE_DEFAULT]
               (oneSetterState SETTER_TYPE_DYNAMIC_IMPORT))) =
     [(SETTER_TYPE_DYNAMIC_IMPORT, INITIAL_VALUE, Num 1, UPDATE_TYPE_DEFAULT),
      (SETTER_TYPE_DYNAMIC_IMPORT, Num 1, Num 1, UPDATE_TYPE_DEFAULT)] \<and>
   map sid (settersOf
              (the (entries (run [Loaded 0,
                                  UpdateBindings 3 0 NamesUndefined UPDATE_TYPE_DEFAULT,
                                  UpdateBindings 3 0 NamesUndefined UPDATE_TYPE_DEFAULT]
                               (oneSetterState SETTER_TYPE_DYNAMIC_IMPORT)) 0)) ''x'') = [0] \<and>
   map (\<lambda>c. (stype (c_setter c), last (c_setter c), c_value c, c_kind c))
     (trace (run [UpdateBindings 3 0 NamesUndefined UPDATE_TYPE_DEFAULT,
                  UpdateBindings 3 0 NamesUndefined UPDATE_TYPE_INIT]
               (oneSetterState SETTER_TYPE_STATIC_IMPORT))) =
     [(SETTER_TYPE_STATIC_IMPORT, INITIAL_VALUE, Num 1, UPDATE_TYPE_DEFAULT),
      (SETTER_TYPE_STATIC_IMPORT, Num 1, Num 1, UPDATE_TYPE_INIT)]"
  by code_simp

end
